theory Spec2Isabelle
  imports
    Complex_Main
    "HOL-Library.Char_ord"
    "HOL-Library.List_Lexorder"
    "HOL-Library.Product_Lexorder"
begin

section \<open>Exceptions as values\<close>

text \<open>
  The exceptions that indexing and broadcasting raise in the parts of the program modelled
  here. A function that can raise returns a sum, with the exception on the left.
\<close>

datatype py_error = IndexError | ValueError

section \<open>The retrying fetch client (http.py)\<close>
















section \<open>The per-domain rate limiter (http.py)\<close>

text \<open>
  The two constructor arguments of \<^verbatim>\<open>DomainRateLimiter\<close>; its dictionary \<^verbatim>\<open>_domain_times\<close> is
  the mutable state.
\<close>

record DomainRateLimiter =
  max_requests_per_period :: int
  period_seconds :: real

type_synonym domain_times = "string \<rightharpoonup> real list"

text \<open>
  One pass through the \<^verbatim>\<open>async with lock\<close> section of \<^verbatim>\<open>acquire\<close>, at clock reading
  \<^verbatim>\<open>now\<close>. The lock makes the pass atomic for its domain. The pass ends in \<^verbatim>\<open>return\<close>
  (the request is admitted), in a sleep of \<^verbatim>\<open>wait_for\<close> seconds before the next pass, or in
  the \<^verbatim>\<open>IndexError\<close> of \<^verbatim>\<open>times[0]\<close> on an empty list.
\<close>

datatype pass_result = Admitted | Sleep real | RaisedIndexError

definition prune :: "real \<Rightarrow> real list \<Rightarrow> real list" where
  \<comment> \<open>\<^verbatim>\<open>while times and times[0] < cutoff: times.pop(0)\<close>\<close>
  "prune cutoff ts = dropWhile (\<lambda>t. t < cutoff) ts"

definition lock_section ::
    "DomainRateLimiter \<Rightarrow> real \<Rightarrow> string \<Rightarrow> domain_times \<Rightarrow> domain_times \<times> pass_result" where
  "lock_section L now domain dt =
     (let stored = (case dt domain of None \<Rightarrow> [] | Some ts \<Rightarrow> ts);
          cutoff = now - period_seconds L;
          kept = prune cutoff stored
      in if int (length kept) < max_requests_per_period L
         then (dt(domain \<mapsto> kept @ [now]), Admitted)
         else (case kept of
                 [] \<Rightarrow> (dt(domain \<mapsto> kept), RaisedIndexError)
               | oldest # _ \<Rightarrow> (dt(domain \<mapsto> kept), Sleep ((oldest + period_seconds L) - now))))"

text \<open>
  The limiter under concurrent callers: the monotonic clock and the timestamp lists. A caller
  of \<^verbatim>\<open>acquire\<close> runs passes of the lock section for its domain until one admits it, and sleeps
  in between; other callers' passes and the passing of time interleave freely. So a run is a
  sequence of events, each either a pass for some domain or the clock moving forward.
\<close>

record limiter_state =
  clock :: real
  times_of :: domain_times

datatype event = Pass string | Advance real

fun step :: "DomainRateLimiter \<Rightarrow> limiter_state \<Rightarrow> event \<Rightarrow> limiter_state" where
  "step L s (Pass domain) = s\<lparr>times_of := fst (lock_section L (clock s) domain (times_of s))\<rparr>"
| "step L s (Advance d) = s\<lparr>clock := clock s + max 0 d\<rparr>"

definition started :: "real \<Rightarrow> limiter_state" where
  "started t0 = \<lparr>clock = t0, times_of = Map.empty\<rparr>"

definition run :: "DomainRateLimiter \<Rightarrow> real \<Rightarrow> event list \<Rightarrow> limiter_state" where
  "run L t0 evs = foldl (step L) (started t0) evs"

text \<open>The recorded timestamps of a domain that lie in the trailing window \<^verbatim>\<open>[now - period, now]\<close>.\<close>

definition recorded :: "limiter_state \<Rightarrow> string \<Rightarrow> real list" where
  "recorded s domain = (case times_of s domain of None \<Rightarrow> [] | Some ts \<Rightarrow> ts)"

definition in_window :: "DomainRateLimiter \<Rightarrow> limiter_state \<Rightarrow> string \<Rightarrow> real list" where
  "in_window L s domain =
     filter (\<lambda>t. clock s - period_seconds L \<le> t \<and> t \<le> clock s) (recorded s domain)"

text \<open>A limiter of two requests per ten seconds.\<close>

definition two_per_ten :: DomainRateLimiter where
  "two_per_ten = \<lparr>max_requests_per_period = 2, period_seconds = 10\<rparr>"

text \<open>
  One caller of \<^verbatim>\<open>acquire\<close> alone with the limiter: the loop \<^verbatim>\<open>while True\<close>. After a pass
  that does not admit it the caller awaits \<^verbatim>\<open>asyncio.sleep(max(0.0, wait_for))\<close>, and the next
  pass reads the clock again. How far the scheduler is off the requested duration is not
  the program's to decide: it is given, sleep by sleep, by the list of drifts (the clock
  never runs backwards). The loop is followed for as many sleeps as the list has entries,
  and is reported as still waiting when they are used up.
\<close>

datatype acquire_result = Acquired | Raised | StillWaiting

fun acquire ::
    "DomainRateLimiter \<Rightarrow> string \<Rightarrow> real list \<Rightarrow> limiter_state \<Rightarrow> limiter_state \<times> acquire_result" where
  "acquire L domain [] s =
     (case lock_section L (clock s) domain (times_of s) of
        (dt, Admitted) \<Rightarrow> (s\<lparr>times_of := dt\<rparr>, Acquired)
      | (dt, RaisedIndexError) \<Rightarrow> (s\<lparr>times_of := dt\<rparr>, Raised)
      | (dt, Sleep wait_for) \<Rightarrow> (s\<lparr>times_of := dt\<rparr>, StillWaiting))"
| "acquire L domain (drift # drifts) s =
     (case lock_section L (clock s) domain (times_of s) of
        (dt, Admitted) \<Rightarrow> (s\<lparr>times_of := dt\<rparr>, Acquired)
      | (dt, RaisedIndexError) \<Rightarrow> (s\<lparr>times_of := dt\<rparr>, Raised)
      | (dt, Sleep wait_for) \<Rightarrow>
          acquire L domain drifts
            (s\<lparr>times_of := dt, clock := clock s + max 0 (max 0 wait_for + drift)\<rparr>))"

text \<open>
  The inductive invariants: no stored list is longer than the maximum, and every stored
  list is in ascending order with no entry later than the clock.
\<close>

definition bounded :: "DomainRateLimiter \<Rightarrow> limiter_state \<Rightarrow> bool" where
  "bounded L s \<longleftrightarrow> (\<forall>d ts. times_of s d = Some ts \<longrightarrow> int (length ts) \<le> max_requests_per_period L)"

definition ordered :: "limiter_state \<Rightarrow> bool" where
  "ordered s \<longleftrightarrow> (\<forall>d ts. times_of s d = Some ts \<longrightarrow> sorted ts \<and> (\<forall>t \<in> set ts. t \<le> clock s))"

text \<open>Runs to evaluate the limiter on.\<close>

definition busy_day :: "event list" where
  "busy_day = [Pass ''a.com'', Advance 4, Pass ''a.com'', Pass ''a.com'', Advance 7]"

definition full_window :: "event list" where
  "full_window = [Pass ''a.com'', Advance 4, Pass ''a.com'']"

text \<open>Limiters configured with a maximum of zero and with a negative maximum.\<close>

definition zero_per_ten :: DomainRateLimiter where
  "zero_per_ten = \<lparr>max_requests_per_period = 0, period_seconds = 10\<rparr>"

definition no_requests :: DomainRateLimiter where
  "no_requests = \<lparr>max_requests_per_period = - 1, period_seconds = 10\<rparr>"

section \<open>Candidate merging and fair capping (pipeline.py)\<close>

text \<open>
  The fields of \<^verbatim>\<open>Article\<close> (types.py) that a stub carries before it is scraped; the fields
  filled in by later stages play no part in merging and capping.
\<close>

record Article =
  source :: string
  title :: string
  url :: string
  published_at :: "int option"
  summary :: "string option"

text \<open>
  The first loop of \<^verbatim>\<open>_round_robin_by_source\<close>: the dictionary \<^verbatim>\<open>buckets\<close> and the list
  \<^verbatim>\<open>order\<close> of source ids in the order they were first seen. \<^verbatim>\<open>str(it.source or "")\<close> is the
  source id itself, a string.
\<close>

type_synonym buckets = "string \<rightharpoonup> Article list"

fun fill_buckets :: "Article list \<Rightarrow> buckets \<Rightarrow> string list \<Rightarrow> buckets \<times> string list" where
  "fill_buckets [] b order = (b, order)"
| "fill_buckets (it # items) b order =
     (let sid = source it
      in case b sid of
           None \<Rightarrow> fill_buckets items (b(sid \<mapsto> [it])) (order @ [sid])
         | Some bucket \<Rightarrow> fill_buckets items (b(sid \<mapsto> bucket @ [it])) order)"

text \<open>
  One round, the \<^verbatim>\<open>for sid in order\<close> loop: an empty or missing bucket is skipped, otherwise
  its first element is popped and appended to \<^verbatim>\<open>out\<close>, and the round breaks off once \<^verbatim>\<open>out\<close>
  has reached the limit. The flag is \<^verbatim>\<open>progressed\<close>.
\<close>

fun rr_round ::
    "string list \<Rightarrow> buckets \<Rightarrow> Article list \<Rightarrow> int \<Rightarrow> bool \<Rightarrow> buckets \<times> Article list \<times> bool" where
  "rr_round [] b out limit progressed = (b, out, progressed)"
| "rr_round (sid # rest) b out limit progressed =
     (case b sid of
        None \<Rightarrow> rr_round rest b out limit progressed
      | Some [] \<Rightarrow> rr_round rest b out limit progressed
      | Some (x # xs) \<Rightarrow>
          if int (length (out @ [x])) \<ge> limit then (b(sid \<mapsto> xs), out @ [x], True)
          else rr_round rest (b(sid \<mapsto> xs)) (out @ [x]) limit True)"

lemma rr_round_grows:
  "rr_round ss b out limit p = (b', out', p') \<Longrightarrow>
     length out \<le> length out' \<and> (p' \<and> \<not> p \<longrightarrow> length out < length out')"
  by (induction ss b out limit p rule: rr_round.induct)
     (fastforce split: option.splits list.splits if_splits)+

text \<open>
  The \<^verbatim>\<open>while len(out) < limit\<close> loop: rounds are repeated until the limit is reached or a
  round pops nothing. Each round that goes on has made \<^verbatim>\<open>out\<close> longer, so the loop ends.
\<close>

function rr_rounds :: "string list \<Rightarrow> buckets \<Rightarrow> Article list \<Rightarrow> int \<Rightarrow> Article list" where
  "rr_rounds order b out limit =
     (if int (length out) < limit
      then (case rr_round order b out limit False of
              (b', out', progressed) \<Rightarrow>
                if \<not> progressed then out' else rr_rounds order b' out' limit)
      else out)"
  by pat_completeness auto
termination
  apply (relation "measure (\<lambda>(order, b, out, limit). nat (limit - int (length out)))")
   apply simp
  apply (auto dest!: sym [of "(_, _, _)"] dest: rr_round_grows)
  done

definition round_robin_by_source :: "Article list \<Rightarrow> int \<Rightarrow> Article list" where
  "round_robin_by_source items limit =
     (if limit \<le> 0 then []
      else case fill_buckets items Map.empty [] of (b, order) \<Rightarrow> rr_rounds order b [] limit)"

text \<open>
  The selection as the specification words it: the source ids in first-seen order, one bucket
  per source holding its candidates in their original order, the rounds read off the buckets
  (\<^const>\<open>transpose\<close> takes the first elements of the non-empty buckets, then the second
  ones, and so on), cut at the cap.
\<close>

definition first_seen :: "'a list \<Rightarrow> 'a list" where
  "first_seen xs = rev (remdups (rev xs))"

definition bucket_of :: "Article list \<Rightarrow> string \<Rightarrow> Article list" where
  "bucket_of items sid = filter (\<lambda>a. source a = sid) items"

definition fair_cap_spec :: "Article list \<Rightarrow> int \<Rightarrow> Article list" where
  "fair_cap_spec items limit =
     take (nat limit) (concat (transpose (map (bucket_of items) (first_seen (map source items)))))"

text \<open>
  For the proofs: the bucket contents in source order, and the first elements of the
  non-empty lists among them, which is what one full round pops.
\<close>

definition contents :: "buckets \<Rightarrow> string list \<Rightarrow> Article list list" where
  "contents b ss = map (\<lambda>s. case b s of None \<Rightarrow> [] | Some xs \<Rightarrow> xs) ss"

definition heads :: "'a list list \<Rightarrow> 'a list" where
  "heads xss = map hd (filter (\<lambda>xs. xs \<noteq> []) xss)"

text \<open>Twelve candidates: ten from one source, one each from two others.\<close>

definition stub :: "string \<Rightarrow> string \<Rightarrow> Article" where
  "stub s u = \<lparr>source = s, title = [], url = u, published_at = None, summary = None\<rparr>"

definition twelve :: "Article list" where
  "twelve = map (stub ''wire'') [''w0'', ''w1'', ''w2'', ''w3'', ''w4'', ''w5'', ''w6'', ''w7'', ''w8'', ''w9'']
            @ [stub ''desk'' ''d0'', stub ''blog'' ''b0'']"

section \<open>Merging the candidate streams (pipeline.py, \<^verbatim>\<open>run_pipeline\<close>)\<close>

text \<open>
  The early de-duplication of the feed articles: the first article of each URL is kept.
\<close>

fun dedupe_feed :: "string set \<Rightarrow> Article list \<Rightarrow> Article list" where
  "dedupe_feed seen [] = []"
| "dedupe_feed seen (a # as) =
     (if url a \<in> seen then dedupe_feed seen as
      else a # dedupe_feed (insert (url a) seen) as)"

text \<open>
  \<^verbatim>\<open>skip_urls\<close> is a set or \<^verbatim>\<open>None\<close>; \<^verbatim>\<open>if skip_urls:\<close> is false for \<^verbatim>\<open>None\<close> and for the
  empty set.
\<close>

definition drop_skipped :: "string set option \<Rightarrow> Article list \<Rightarrow> Article list" where
  "drop_skipped skip_urls as =
     (case skip_urls of
        None \<Rightarrow> as
      | Some skip \<Rightarrow> if skip = {} then as else filter (\<lambda>a. url a \<notin> skip) as)"

text \<open>The nested function \<^verbatim>\<open>_interleave\<close>: one element of each list per turn.\<close>

fun interleave :: "Article list \<Rightarrow> Article list \<Rightarrow> Article list" where
  "interleave [] [] = []"
| "interleave (a # as) [] = a # interleave as []"
| "interleave [] (b # bs) = b # interleave [] bs"
| "interleave (a # as) (b # bs) = a # b # interleave as bs"

text \<open>The second de-duplication also drops candidates with an empty URL.\<close>

fun dedupe_merged :: "string set \<Rightarrow> Article list \<Rightarrow> Article list" where
  "dedupe_merged seen2 [] = []"
| "dedupe_merged seen2 (a # as) =
     (if url a = [] then dedupe_merged seen2 as
      else if url a \<in> seen2 then dedupe_merged seen2 as
      else a # dedupe_merged (insert (url a) seen2) as)"

text \<open>
  \<^verbatim>\<open>int(crawl_cfg.get("max_articles_per_run", 120))\<close>: a setting that is absent from the
  configuration counts as 120.
\<close>

definition max_articles_setting :: "int option \<Rightarrow> int" where
  "max_articles_setting configured = (case configured of None \<Rightarrow> 120 | Some v \<Rightarrow> v)"

text \<open>
  \<^verbatim>\<open>hard_cap\<close>: \<^verbatim>\<open>None\<close> when neither setting is positive, otherwise the least positive one.
\<close>

definition hard_cap :: "int \<Rightarrow> int \<Rightarrow> int option" where
  "hard_cap max_articles_per_run max_items =
     (let hc = (if max_articles_per_run > 0 then Some max_articles_per_run else None)
      in if max_items > 0
         then (case hc of None \<Rightarrow> Some max_items | Some c \<Rightarrow> Some (min c max_items))
         else hc)"

text \<open>
  The list \<^verbatim>\<open>merged\<close> before the cap, then the candidates that reach the scraping stage, in
  the order of the statements of \<^verbatim>\<open>run_pipeline\<close>: the feed articles are filtered by
  \<^verbatim>\<open>skip_urls\<close> before the merge, the cap is applied to \<^verbatim>\<open>merged\<close>, and only then are the
  URLs of \<^verbatim>\<open>skip_urls\<close> removed from \<^verbatim>\<open>merged\<close>.
\<close>

definition merged_candidates ::
    "Article list \<Rightarrow> Article list \<Rightarrow> string set option \<Rightarrow> Article list" where
  "merged_candidates rss_articles discovered_articles skip_urls =
     (let unique_articles = drop_skipped skip_urls (dedupe_feed {} rss_articles);
          all_candidates = interleave unique_articles discovered_articles
      in dedupe_merged {} all_candidates)"

definition capped :: "Article list \<Rightarrow> int option \<Rightarrow> Article list" where
  "capped merged hc =
     (case hc of
        None \<Rightarrow> merged
      | Some c \<Rightarrow> if int (length merged) > c then round_robin_by_source merged c else merged)"

definition candidates_to_scrape ::
    "Article list \<Rightarrow> Article list \<Rightarrow> string set option \<Rightarrow> int option \<Rightarrow> int \<Rightarrow> Article list" where
  "candidates_to_scrape rss_articles discovered_articles skip_urls configured max_items =
     (let merged = merged_candidates rss_articles discovered_articles skip_urls;
          max_articles_per_run = max_articles_setting configured;
          merged = capped merged (hard_cap max_articles_per_run max_items)
      in drop_skipped skip_urls merged)"

text \<open>
  Stage 2 as the specification orders it: the URLs of \<^verbatim>\<open>skip_urls\<close> are removed from the
  merged list before any cap.
\<close>

definition stage2_spec ::
    "Article list \<Rightarrow> Article list \<Rightarrow> string set option \<Rightarrow> Article list" where
  "stage2_spec rss_articles discovered_articles skip_urls =
     drop_skipped skip_urls (merged_candidates rss_articles discovered_articles skip_urls)"

text \<open>Two discovered candidates, the first of which was seen in an earlier cycle.\<close>

definition seen_and_new :: "Article list" where
  "seen_and_new = [stub ''wire'' ''https://w.example/a'', stub ''wire'' ''https://w.example/b'']"

section \<open>The TF-IDF vectorizer (vectorize.py)\<close>

subsection \<open>Tokens and n-grams\<close>

text \<open>
  \<^verbatim>\<open>_WORD_RE = [A-Za-z][A-Za-z0-9_\-]{1,}\<close>: an ASCII letter followed by at least one
  letter, digit, underscore or hyphen, as many as there are.
\<close>

definition is_letter :: "char \<Rightarrow> bool" where
  "is_letter c \<longleftrightarrow> (CHR ''a'' \<le> c \<and> c \<le> CHR ''z'') \<or> (CHR ''A'' \<le> c \<and> c \<le> CHR ''Z'')"

definition is_word_char :: "char \<Rightarrow> bool" where
  "is_word_char c \<longleftrightarrow>
     is_letter c \<or> (CHR ''0'' \<le> c \<and> c \<le> CHR ''9'') \<or> c = CHR ''_'' \<or> c = CHR ''-''"

definition lower_char :: "char \<Rightarrow> char" where
  "lower_char c = (if CHR ''A'' \<le> c \<and> c \<le> CHR ''Z'' then char_of (of_char c + (32::nat)) else c)"

text \<open>
  \<^verbatim>\<open>_WORD_RE.findall\<close> scans from the left: a match starts at a letter that has a word
  character after it and takes the whole run, and the scan goes on behind the match;
  anywhere else the scan moves one character on. Every token is lower-cased.
\<close>

function tokenize :: "string \<Rightarrow> string list" where
  "tokenize [] = []"
| "tokenize (c # cs) =
     (if is_letter c \<and> takeWhile is_word_char cs \<noteq> []
      then map lower_char (c # takeWhile is_word_char cs) # tokenize (dropWhile is_word_char cs)
      else tokenize cs)"
  by pat_completeness auto
termination
  by (relation "measure length") (auto simp: length_dropWhile_le less_Suc_eq_le)

text \<open>
  Python's slice \<^verbatim>\<open>xs[i:j]\<close>: a negative bound counts from the end, and every bound is
  clamped to the list.
\<close>

definition py_bound :: "nat \<Rightarrow> int \<Rightarrow> nat" where
  "py_bound n i = (if i < 0 then nat (max 0 (int n + i)) else min (nat i) n)"

definition py_slice :: "'a list \<Rightarrow> int \<Rightarrow> int \<Rightarrow> 'a list" where
  "py_slice xs i j = take (py_bound (length xs) j - py_bound (length xs) i) (drop (py_bound (length xs) i) xs)"

fun join_space :: "string list \<Rightarrow> string" where
  "join_space [] = []"
| "join_space [w] = w"
| "join_space (w # v # ws) = w @ '' '' @ join_space (v # ws)"

text \<open>
  \<^verbatim>\<open>_ngrams\<close>: for every \<^verbatim>\<open>n\<close> of the range, the tokens themselves when \<^verbatim>\<open>n = 1\<close> and
  otherwise the space-joined windows \<^verbatim>\<open>tokens[i : i + n]\<close>.
\<close>

definition windows :: "string list \<Rightarrow> int \<Rightarrow> string list" where
  "windows tokens n =
     map (\<lambda>i. join_space (py_slice tokens (int i) (int i + n)))
       [0 ..< nat (max 0 (int (length tokens) - n + 1))]"

definition ngrams :: "string list \<Rightarrow> int \<times> int \<Rightarrow> string list" where
  "ngrams tokens ngram_range =
     (case ngram_range of (lo, hi) \<Rightarrow>
        concat (map (\<lambda>n. if n = 1 then tokens else windows tokens n) [lo..hi]))"

definition terms_of :: "int \<times> int \<Rightarrow> string \<Rightarrow> string list" where
  \<comment> \<open>\<^verbatim>\<open>_ngrams(_tokenize(text), ngram_range)\<close>\<close>
  "terms_of ngram_range text = ngrams (tokenize text) ngram_range"

subsection \<open>Counters\<close>

text \<open>
  A \<^verbatim>\<open>collections.Counter\<close> is a dictionary in insertion order: the keys with their counts.
\<close>

type_synonym counter = "(string \<times> nat) list"

fun counter_inc :: "counter \<Rightarrow> string \<Rightarrow> counter" where
  "counter_inc [] t = [(t, 1)]"
| "counter_inc ((k, v) # c) t = (if k = t then (k, Suc v) # c else (k, v) # counter_inc c t)"

definition counter_update :: "counter \<Rightarrow> string list \<Rightarrow> counter" where
  "counter_update c ts = foldl counter_inc c ts"

definition counter_get :: "counter \<Rightarrow> string \<Rightarrow> nat" where
  \<comment> \<open>\<^verbatim>\<open>c.get(t, 0)\<close>\<close>
  "counter_get c t = (case map_of c t of None \<Rightarrow> 0 | Some v \<Rightarrow> v)"

subsection \<open>Fitting\<close>

record TfidfModel =
  vocab :: "(string \<times> nat) list"
  idf :: "real list"

text \<open>
  The document frequencies: every text adds one to the count of each of its distinct terms.
  A Python set is iterated in no particular order; the order taken here is that of first
  occurrence. It only decides the order of the counter's keys, which the sort below
  replaces.
\<close>

definition df_counter :: "string list \<Rightarrow> int \<times> int \<Rightarrow> counter" where
  "df_counter texts ngram_range =
     foldl (\<lambda>c text. counter_update c (remdups (terms_of ngram_range text))) [] texts"

definition py_prefix :: "int \<Rightarrow> 'a list \<Rightarrow> 'a list" where
  \<comment> \<open>\<^verbatim>\<open>xs[:n]\<close>\<close>
  "py_prefix n xs = take (py_bound (length xs) n) xs"

definition ranked_items :: "string list \<Rightarrow> int \<times> int \<Rightarrow> int \<Rightarrow> (string \<times> nat) list" where
  "ranked_items texts ngram_range min_df =
     sort_key (\<lambda>(t, c). (- int c, t))
       (filter (\<lambda>(t, c). int c \<ge> min_df) (df_counter texts ngram_range))"

definition smooth_idf :: "nat \<Rightarrow> nat \<Rightarrow> real" where
  "smooth_idf n_docs df = ln ((1 + real n_docs) / (1 + real df)) + 1"

definition fit_tfidf :: "string list \<Rightarrow> int \<Rightarrow> int \<times> int \<Rightarrow> int \<Rightarrow> TfidfModel" where
  "fit_tfidf texts max_features ngram_range min_df =
     (let items = py_prefix max_features (ranked_items texts ngram_range min_df);
          voc = zip (map fst items) [0 ..< length items];
          n_docs = max 1 (length texts);
          weights = foldl (\<lambda>a (term, idx).
                       a[idx := smooth_idf n_docs (counter_get (df_counter texts ngram_range) term)])
                     (replicate (length voc) 0) voc
      in \<lparr>vocab = voc, idf = weights\<rparr>)"

subsection \<open>Transforming\<close>

text \<open>
  One row of counts: \<^verbatim>\<open>X[row_idx, col] = float(count)\<close> for every term of the text that the
  vocabulary knows. A column outside the matrix raises \<^verbatim>\<open>IndexError\<close>.
\<close>

fun fill_row :: "(string \<times> nat) list \<Rightarrow> counter \<Rightarrow> real list \<Rightarrow> py_error + real list" where
  "fill_row voc [] row = Inr row"
| "fill_row voc ((term, count) # tf) row =
     (case map_of voc term of
        None \<Rightarrow> fill_row voc tf row
      | Some col \<Rightarrow>
          if col < length row then fill_row voc tf (row[col := real count]) else Inl IndexError)"

definition count_row :: "TfidfModel \<Rightarrow> int \<times> int \<Rightarrow> string \<Rightarrow> py_error + real list" where
  "count_row model ngram_range text =
     fill_row (vocab model) (counter_update [] (terms_of ngram_range text))
       (replicate (length (vocab model)) 0)"

fun all_rows :: "('a \<Rightarrow> py_error + 'b) \<Rightarrow> 'a list \<Rightarrow> py_error + 'b list" where
  "all_rows f [] = Inr []"
| "all_rows f (x # xs) =
     (case f x of
        Inl e \<Rightarrow> Inl e
      | Inr y \<Rightarrow> (case all_rows f xs of Inl e \<Rightarrow> Inl e | Inr ys \<Rightarrow> Inr (y # ys)))"

text \<open>
  \<^verbatim>\<open>X *= model.idf\<close> multiplies every row by the weights, column by column. NumPy accepts a
  weight vector as long as the rows, or of length one, which it repeats; any other length
  raises \<^verbatim>\<open>ValueError\<close>.
\<close>

definition broadcast_idf :: "nat \<Rightarrow> real list \<Rightarrow> py_error + real list" where
  "broadcast_idf V ws =
     (if length ws = V then Inr ws
      else if length ws = 1 then Inr (replicate V (hd ws))
      else Inl ValueError)"

definition tfidf_weights :: "string list \<Rightarrow> TfidfModel \<Rightarrow> int \<times> int \<Rightarrow> py_error + real list list" where
  "tfidf_weights texts model ngram_range =
     (case all_rows (count_row model ngram_range) texts of
        Inl e \<Rightarrow> Inl e
      | Inr X \<Rightarrow>
          (case broadcast_idf (length (vocab model)) (idf model) of
             Inl e \<Rightarrow> Inl e
           | Inr ws \<Rightarrow> Inr (map (\<lambda>row. map2 (*) row ws) X)))"

text \<open>
  The rows are divided by their Euclidean norms, where a norm of zero has been replaced by
  one.
\<close>

definition l2 :: "real list \<Rightarrow> real" where
  "l2 row = sqrt (sum_list (map (\<lambda>x. x * x) row))"

definition safe_norm :: "real list \<Rightarrow> real" where
  "safe_norm row = (if l2 row = 0 then 1 else l2 row)"

definition l2_normalize :: "real list \<Rightarrow> real list" where
  "l2_normalize row = map (\<lambda>x. x / safe_norm row) row"

definition transform_tfidf :: "string list \<Rightarrow> TfidfModel \<Rightarrow> int \<times> int \<Rightarrow> py_error + real list list" where
  "transform_tfidf texts model ngram_range =
     (case tfidf_weights texts model ngram_range of
        Inl e \<Rightarrow> Inl e
      | Inr W \<Rightarrow> Inr (map l2_normalize W))"

definition dot :: "real list \<Rightarrow> real list \<Rightarrow> real" where
  "dot u v = sum_list (map2 (*) u v)"

text \<open>
  The notions the rows are measured by: the Euclidean norm and the inner product of
  vectors of reals, and the cosine of the angle between two vectors where it is defined
  (zero otherwise). They are written down independently of the functions above.
\<close>

definition euclidean_norm :: "real list \<Rightarrow> real" where
  "euclidean_norm v = sqrt (\<Sum>x\<leftarrow>v. x\<^sup>2)"

definition inner_product :: "real list \<Rightarrow> real list \<Rightarrow> real" where
  "inner_product u v = (\<Sum>(x, y)\<leftarrow>zip u v. x * y)"

definition cosine :: "real list \<Rightarrow> real list \<Rightarrow> real" where
  "cosine u v =
     (if euclidean_norm u = 0 \<or> euclidean_norm v = 0 then 0
      else inner_product u v / (euclidean_norm u * euclidean_norm v))"


subsection \<open>The vocabulary as the specification words it\<close>

text \<open>
  The document frequency of a term is the number of documents that contain it at least once;
  the terms of the corpus are those of its documents. One term ranks before another when
  its document frequency is higher, or equal with the term itself lexicographically smaller.
\<close>

definition doc_freq :: "string list \<Rightarrow> int \<times> int \<Rightarrow> string \<Rightarrow> nat" where
  "doc_freq texts ngram_range t =
     length (filter (\<lambda>text. t \<in> set (terms_of ngram_range text)) texts)"

definition corpus_terms :: "string list \<Rightarrow> int \<times> int \<Rightarrow> string set" where
  "corpus_terms texts ngram_range = (\<Union>text \<in> set texts. set (terms_of ngram_range text))"

definition ranks_before :: "string list \<Rightarrow> int \<times> int \<Rightarrow> string \<Rightarrow> string \<Rightarrow> bool" where
  "ranks_before texts ngram_range s t \<longleftrightarrow>
     doc_freq texts ngram_range s > doc_freq texts ngram_range t \<or>
     (doc_freq texts ngram_range s = doc_freq texts ngram_range t \<and> s < t)"

text \<open>For the proofs: the document-frequency loop started from any counter.\<close>

definition df_from :: "counter \<Rightarrow> string list \<Rightarrow> int \<times> int \<Rightarrow> counter" where
  "df_from c texts r = foldl (\<lambda>c text. counter_update c (remdups (terms_of r text))) c texts"

text \<open>Three headlines.\<close>

definition headlines :: "string list" where
  "headlines = [''Fed raises rates'', ''Fed cuts rates'', ''oil up'']"

section \<open>The dedup engine (dedup.py)\<close>

record DedupResult =
  is_duplicate :: bool
  duplicate_of_url :: "string option"
  best_similarity :: real

text \<open>
  \<^verbatim>\<open>np.argmax\<close>: the index of the first greatest element; an empty array raises
  \<^verbatim>\<open>ValueError\<close>.
\<close>

fun first_greatest :: "real list \<Rightarrow> nat" where
  "first_greatest [] = 0"
| "first_greatest [x] = 0"
| "first_greatest (x # y # ys) =
     (let i = first_greatest (y # ys) in if x \<ge> (y # ys) ! i then 0 else Suc i)"

definition argmax :: "real list \<Rightarrow> py_error + nat" where
  "argmax xs = (if xs = [] then Inl ValueError else Inr (first_greatest xs))"

text \<open>\<^verbatim>\<open>X[1:] @ X[0]\<close>: the dot product of every later row with the first one.\<close>

definition similarities :: "real list list \<Rightarrow> py_error + real list" where
  "similarities X = (case X of [] \<Rightarrow> Inl IndexError | x0 # rest \<Rightarrow> Inr (map (\<lambda>row. dot row x0) rest))"

text \<open>
  The model is fitted on the candidate followed by the recent texts, and the same batch is
  transformed. \<^verbatim>\<open>sims\<close> has one entry per recent text.
\<close>

definition batch_model :: "string \<Rightarrow> string list \<Rightarrow> TfidfModel" where
  "batch_model candidate_text recent_texts =
     fit_tfidf (candidate_text # recent_texts) 8000 (1, 2) 2"

definition batch_similarities :: "string \<Rightarrow> string list \<Rightarrow> py_error + real list" where
  "batch_similarities candidate_text recent_texts =
     (case transform_tfidf (candidate_text # recent_texts)
             (batch_model candidate_text recent_texts) (1, 2) of
        Inl e \<Rightarrow> Inl e
      | Inr X \<Rightarrow> similarities X)"

definition py_index :: "'a list \<Rightarrow> nat \<Rightarrow> py_error + 'a" where
  \<comment> \<open>\<^verbatim>\<open>xs[i]\<close> for an index that is not negative\<close>
  "py_index xs i = (if i < length xs then Inr (xs ! i) else Inl IndexError)"

definition not_duplicate :: "real \<Rightarrow> DedupResult" where
  "not_duplicate s = \<lparr>is_duplicate = False, duplicate_of_url = None, best_similarity = s\<rparr>"

text \<open>
  \<^verbatim>\<open>dedup_against_recent\<close>, from the guard on its arguments to the result. The lines that
  fit the model, transform the batch and multiply (\<^verbatim>\<open>sims = X[1:] @ X[0]\<close>) are its first
  argument: the function from the candidate and the recent texts to the similarity vector,
  or to the exception raised on the way. NumPy computes that vector in 32-bit floating
  point; a finite float is the real number it denotes, and \<^verbatim>\<open>np.argmax\<close>, \<^verbatim>\<open>float(...)\<close> and
  \<^verbatim>\<open>>=\<close> compare such numbers exactly, so everything after the multiplication is the
  program's own arithmetic for whatever finite values the vector holds.
\<close>

definition dedup_against_recent_with ::
    "(string \<Rightarrow> string list \<Rightarrow> py_error + real list) \<Rightarrow>
       string \<Rightarrow> string \<Rightarrow> string list \<Rightarrow> string list \<Rightarrow> real \<Rightarrow> py_error + DedupResult" where
  "dedup_against_recent_with computed_sims candidate_text candidate_url recent_texts recent_urls
       threshold =
     (if candidate_text = [] \<or> recent_texts = [] then Inr (not_duplicate 0)
      else case computed_sims candidate_text recent_texts of
        Inl e \<Rightarrow> Inl e
      | Inr sims \<Rightarrow>
          if sims = [] then Inr (not_duplicate 0)
          else (case argmax sims of
                  Inl e \<Rightarrow> Inl e
                | Inr best_idx \<Rightarrow>
                    let best_sim = sims ! best_idx
                    in if best_sim \<ge> threshold
                       then (case py_index recent_urls best_idx of
                               Inl e \<Rightarrow> Inl e
                             | Inr u \<Rightarrow> Inr \<lparr>is_duplicate = True, duplicate_of_url = Some u,
                                             best_similarity = best_sim\<rparr>)
                       else Inr (not_duplicate best_sim)))"

text \<open>
  The function with the similarity vector of exact arithmetic: the one that
  \<^verbatim>\<open>fit_tfidf\<close>, \<^verbatim>\<open>transform_tfidf\<close> and the product yield over the reals.
\<close>

definition dedup_against_recent ::
    "string \<Rightarrow> string \<Rightarrow> string list \<Rightarrow> string list \<Rightarrow> real \<Rightarrow> py_error + DedupResult" where
  "dedup_against_recent candidate_text candidate_url recent_texts recent_urls threshold =
     dedup_against_recent_with batch_similarities candidate_text candidate_url recent_texts
       recent_urls threshold"

text \<open>Two short texts with no term in common.\<close>

definition twin :: string where
  "twin = ''alpha beta''"

definition metals :: string where
  "metals = ''gold silver''"



section \<open>Link discovery and scoring (discover.py)\<close>

subsection \<open>Strings\<close>











subsection \<open>URLs, after \<^verbatim>\<open>urllib.parse\<close>\<close>













subsection \<open>The functions of discover.py\<close>

























section \<open>Verification of the retrying fetch client\<close>





lemma limiter_never_raises:
  "1 \<le> max_requests_per_period L \<Longrightarrow> snd (acquire L domain drifts s) \<noteq> Raised"
proof (induction drifts arbitrary: s)
  case Nil
  then show ?case
    by (cases "lock_section L (clock s) domain (times_of s)")
      (auto simp: lock_section_def Let_def split: pass_result.splits list.splits if_splits)
next
  case (Cons drift drifts)
  then show ?case
    by (cases "lock_section L (clock s) domain (times_of s)")
      (auto simp: lock_section_def Let_def split: pass_result.splits list.splits if_splits)
qed


section \<open>Verification of the rate limiter\<close>

lemma length_prune: "length (prune c ts) \<le> length ts"
  by (simp add: prune_def length_dropWhile_le)

lemma prune_sorted: "sorted ts \<Longrightarrow> prune c ts = filter (\<lambda>t. c \<le> t) ts"
proof (induction ts)
  case Nil
  show ?case by (simp add: prune_def)
next
  case (Cons a ts)
  show ?case
  proof (cases "a < c")
    case True
    with Cons show ?thesis by (simp add: prune_def)
  next
    case False
    with Cons.prems have "\<forall>t \<in> set (a # ts). c \<le> t" by auto
    then have "filter (\<lambda>t. c \<le> t) (a # ts) = a # ts" by (simp only: filter_True)
    with False show ?thesis by (simp add: prune_def)
  qed
qed

lemma sorted_prune: "sorted ts \<Longrightarrow> sorted (prune c ts)"
  by (simp add: prune_sorted sorted_wrt_filter)

lemma set_prune: "set (prune c ts) \<subseteq> set ts"
  by (simp add: prune_def set_dropWhileD subsetI)

lemma lock_section_other:
  "d \<noteq> domain \<Longrightarrow> fst (lock_section L now domain dt) d = dt d"
  by (auto simp: lock_section_def Let_def split: list.splits)

lemma lock_section_same:
  "fst (lock_section L now domain dt) domain =
     Some (prune (now - period_seconds L) (case dt domain of None \<Rightarrow> [] | Some ts \<Rightarrow> ts)
           @ (if int (length (prune (now - period_seconds L)
                 (case dt domain of None \<Rightarrow> [] | Some ts \<Rightarrow> ts))) < max_requests_per_period L
              then [now] else []))"
  by (auto simp: lock_section_def Let_def split: list.splits)

lemma lock_section_result:
  "1 \<le> max_requests_per_period L \<Longrightarrow>
   snd (lock_section L now domain dt) =
     (let kept = prune (now - period_seconds L) (case dt domain of None \<Rightarrow> [] | Some ts \<Rightarrow> ts)
      in if int (length kept) < max_requests_per_period L then Admitted
         else Sleep ((hd kept + period_seconds L) - now))"
  by (auto simp: lock_section_def Let_def split: list.splits)

lemma lock_section_bounded:
  assumes "0 \<le> max_requests_per_period L"
    and "\<forall>d ts. dt d = Some ts \<longrightarrow> int (length ts) \<le> max_requests_per_period L"
    and "fst (lock_section L now domain dt) d = Some ts"
  shows "int (length ts) \<le> max_requests_per_period L"
proof (cases "d = domain")
  case False
  with assms show ?thesis by (simp add: lock_section_other)
next
  case True
  let ?old = "case dt domain of None \<Rightarrow> [] | Some ts \<Rightarrow> ts"
  let ?p = "prune (now - period_seconds L) ?old"
  have "int (length ?old) \<le> max_requests_per_period L"
    using assms(1,2) by (cases "dt domain") auto
  moreover have "length ?p \<le> length ?old" by (rule length_prune)
  ultimately have p: "int (length ?p) \<le> max_requests_per_period L" by linarith
  from assms(3) True have "ts = ?p @ [now] \<and> int (length ?p) < max_requests_per_period L \<or> ts = ?p"
    by (auto simp: lock_section_same split: if_splits)
  with p show ?thesis by auto
qed

lemma lock_section_ordered:
  assumes "\<forall>d ts. dt d = Some ts \<longrightarrow> sorted ts \<and> (\<forall>t \<in> set ts. t \<le> now)"
    and "fst (lock_section L now domain dt) d = Some ts"
  shows "sorted ts \<and> (\<forall>t \<in> set ts. t \<le> now)"
proof (cases "d = domain")
  case False
  with assms show ?thesis by (simp add: lock_section_other)
next
  case True
  let ?old = "case dt domain of None \<Rightarrow> [] | Some ts \<Rightarrow> ts"
  let ?p = "prune (now - period_seconds L) ?old"
  have old: "sorted ?old \<and> (\<forall>t \<in> set ?old. t \<le> now)"
    using assms(1) by (cases "dt domain") auto
  then have p: "sorted ?p" "\<forall>t \<in> set ?p. t \<le> now"
    using set_prune [of "now - period_seconds L" ?old] by (auto simp: sorted_prune)
  from assms(2) True have "ts = ?p @ [now] \<or> ts = ?p"
    by (auto simp: lock_section_same split: if_splits)
  with p show ?thesis by (auto simp: sorted_append)
qed

lemma step_bounded:
  "0 \<le> max_requests_per_period L \<Longrightarrow> bounded L s \<Longrightarrow> bounded L (step L s e)"
proof (cases e)
  case (Pass domain)
  assume "0 \<le> max_requests_per_period L" "bounded L s"
  then show ?thesis unfolding bounded_def Pass
    using lock_section_bounded [of L "times_of s" "clock s" domain] by auto
next
  case (Advance d)
  assume "bounded L s"
  then show ?thesis by (simp add: bounded_def Advance)
qed

lemma step_ordered: "ordered s \<Longrightarrow> ordered (step L s e)"
proof (cases e)
  case (Pass domain)
  assume "ordered s"
  then show ?thesis unfolding ordered_def Pass
    using lock_section_ordered [of "times_of s" "clock s" L domain] by auto
next
  case (Advance d)
  assume "ordered s"
  then show ?thesis by (fastforce simp: ordered_def Advance)
qed

lemma foldl_step_bounded:
  "0 \<le> max_requests_per_period L \<Longrightarrow> bounded L s \<Longrightarrow> bounded L (foldl (step L) s evs)"
  by (induction evs arbitrary: s) (simp_all add: step_bounded)

lemma foldl_step_ordered: "ordered s \<Longrightarrow> ordered (foldl (step L) s evs)"
  by (induction evs arbitrary: s) (simp_all add: step_ordered)

lemma run_bounded: "0 \<le> max_requests_per_period L \<Longrightarrow> bounded L (run L t0 evs)"
  unfolding run_def by (rule foldl_step_bounded) (simp_all add: bounded_def started_def)

lemma run_ordered: "ordered (run L t0 evs)"
  unfolding run_def by (rule foldl_step_ordered) (simp add: ordered_def started_def)

lemma recorded_bounded:
  "0 \<le> max_requests_per_period L \<Longrightarrow> bounded L s \<Longrightarrow>
     int (length (recorded s domain)) \<le> max_requests_per_period L"
  by (cases "times_of s domain") (auto simp: bounded_def recorded_def)

lemma recorded_ordered:
  "ordered s \<Longrightarrow> sorted (recorded s domain) \<and> (\<forall>t \<in> set (recorded s domain). t \<le> clock s)"
  by (cases "times_of s domain") (auto simp: ordered_def recorded_def)

lemma acquire_is_run:
  "\<exists>evs. fst (acquire L domain drifts s) = foldl (step L) s evs"
proof (induction drifts arbitrary: s)
  case Nil
  have "fst (acquire L domain [] s) = foldl (step L) s [Pass domain]"
    by (simp split: prod.splits pass_result.splits)
  then show ?case by blast
next
  case (Cons drift drifts)
  obtain dt r where lr: "lock_section L (clock s) domain (times_of s) = (dt, r)"
    by (cases "lock_section L (clock s) domain (times_of s)")
  show ?case
  proof (cases r)
    case Admitted
    with lr have "fst (acquire L domain (drift # drifts) s) = foldl (step L) s [Pass domain]"
      by simp
    then show ?thesis by blast
  next
    case RaisedIndexError
    with lr have "fst (acquire L domain (drift # drifts) s) = foldl (step L) s [Pass domain]"
      by simp
    then show ?thesis by blast
  next
    case (Sleep wait_for)
    let ?s' = "s\<lparr>times_of := dt, clock := clock s + max 0 (max 0 wait_for + drift)\<rparr>"
    from Cons.IH [of ?s'] obtain evs where
      evs: "fst (acquire L domain drifts ?s') = foldl (step L) ?s' evs" by blast
    have s': "foldl (step L) s [Pass domain, Advance (max 0 wait_for + drift)] = ?s'"
      using lr by simp
    have "foldl (step L) s ([Pass domain, Advance (max 0 wait_for + drift)] @ evs)
        = foldl (step L) ?s' evs"
      unfolding foldl_append s' ..
    moreover have "fst (acquire L domain (drift # drifts) s) = fst (acquire L domain drifts ?s')"
      using lr Sleep by simp
    ultimately have "fst (acquire L domain (drift # drifts) s)
        = foldl (step L) s ([Pass domain, Advance (max 0 wait_for + drift)] @ evs)"
      using evs by simp
    then show ?thesis by blast
  qed
qed

lemma acquire_first_pass:
  "snd (lock_section L (clock s) domain (times_of s)) = Admitted \<Longrightarrow>
     snd (acquire L domain drifts s) = Acquired"
  by (cases drifts; cases "lock_section L (clock s) domain (times_of s)") auto

lemma prune_drops_head:
  "ts \<noteq> [] \<Longrightarrow> hd ts < c \<Longrightarrow> length (prune c ts) < length ts"
proof -
  assume "ts \<noteq> []" "hd ts < c"
  then obtain a rest where ts: "ts = a # rest" "a < c" by (cases ts) auto
  have "length (dropWhile (\<lambda>t. t < c) rest) \<le> length rest" by (rule length_dropWhile_le)
  with ts show ?thesis by (simp add: prune_def)
qed

lemma acquire_after_sleep:
  assumes m: "1 \<le> max_requests_per_period L" and b: "bounded L s" and d: "0 < drift"
  shows "snd (acquire L domain (drift # drifts) s) = Acquired"
proof -
  let ?stored = "case times_of s domain of None \<Rightarrow> [] | Some ts \<Rightarrow> ts"
  let ?kept = "prune (clock s - period_seconds L) ?stored"
  obtain dt r where lr: "lock_section L (clock s) domain (times_of s) = (dt, r)"
    by (cases "lock_section L (clock s) domain (times_of s)")
  have r: "r = (if int (length ?kept) < max_requests_per_period L then Admitted
                else Sleep ((hd ?kept + period_seconds L) - clock s))"
    using lock_section_result [OF m, of "clock s" domain "times_of s"] lr by (simp add: Let_def)
  show ?thesis
  proof (cases "int (length ?kept) < max_requests_per_period L")
    case True
    with r lr show ?thesis by (simp add: acquire_first_pass)
  next
    case False
    let ?w = "(hd ?kept + period_seconds L) - clock s"
    let ?s' = "s\<lparr>times_of := dt, clock := clock s + max 0 (max 0 ?w + drift)\<rparr>"
    from False r have rs: "r = Sleep ?w" by simp
    have dt: "dt domain = Some ?kept"
      using lock_section_same [of L "clock s" domain "times_of s"] lr False by simp
    have "int (length ?stored) \<le> max_requests_per_period L"
      using b m by (cases "times_of s domain") (auto simp: bounded_def)
    then have le: "int (length ?kept) \<le> max_requests_per_period L"
      using length_prune [of "clock s - period_seconds L" ?stored] by linarith
    from False m have ne: "?kept \<noteq> []" by auto
    have "hd ?kept < clock ?s' - period_seconds L" using d by simp
    from prune_drops_head [OF ne this]
    have "int (length (prune (clock ?s' - period_seconds L) ?kept)) < max_requests_per_period L"
      using le by linarith
    then have "snd (lock_section L (clock ?s') domain (times_of ?s')) = Admitted"
      using lock_section_result [OF m, of "clock ?s'" domain "times_of ?s'"] dt
      by (simp add: Let_def)
    then have "snd (acquire L domain drifts ?s') = Acquired" by (rule acquire_first_pass)
    with lr rs show ?thesis by simp
  qed
qed

lemma in_window_prune:
  "ordered s \<Longrightarrow> in_window L s domain = prune (clock s - period_seconds L) (recorded s domain)"
proof -
  assume "ordered s"
  then have o: "sorted (recorded s domain)" "\<forall>t \<in> set (recorded s domain). t \<le> clock s"
    using recorded_ordered [of s domain] by simp_all
  from o(2) have "in_window L s domain
      = filter (\<lambda>t. clock s - period_seconds L \<le> t) (recorded s domain)"
    unfolding in_window_def by (intro filter_cong) auto
  with o(1) show ?thesis by (simp add: prune_sorted)
qed

lemma in_window_oldest:
  "ordered s \<Longrightarrow> \<forall>t \<in> set (in_window L s domain). hd (in_window L s domain) \<le> t"
proof -
  assume "ordered s"
  then have "sorted (recorded s domain)" using recorded_ordered [of s domain] by simp
  then have "sorted (in_window L s domain)" by (simp add: in_window_def sorted_wrt_filter)
  then show ?thesis by (cases "in_window L s domain") auto
qed

text \<open>
  Claim C1, for a limiter that allows at least one request per period. In every state that
  a run of passes and clock movements reaches, and for every domain:
  the recorded timestamps of the domain within the trailing window \<^verbatim>\<open>[now - period, now]\<close>
  are at most \<^verbatim>\<open>max_requests_per_period\<close>;
  a pass of \<^verbatim>\<open>acquire\<close> keeps exactly the recorded timestamps within the window (it removes
  those older than \<^verbatim>\<open>now - period\<close> and no other) and appends \<^verbatim>\<open>now\<close> only when fewer than the
  maximum are kept;
  it then admits the caller, and otherwise makes the caller sleep for
  \<^verbatim>\<open>oldest + period - now\<close> seconds, a duration that is not negative, where \<^verbatim>\<open>oldest\<close> is
  the earliest timestamp kept, which exists;
  the caller's loop never raises, the state it leaves is again a state of a run (so the
  bound holds there too), and a caller that is alone and whose sleep ends after the oldest
  entry has expired is admitted by the pass that follows.
\<close>

theorem acquire_window_invariant:
  assumes "1 \<le> max_requests_per_period L" and "s = run L t0 evs"
  shows "int (length (in_window L s domain)) \<le> max_requests_per_period L
     \<and> fst (lock_section L (clock s) domain (times_of s)) domain =
          Some (in_window L s domain
                @ (if int (length (in_window L s domain)) < max_requests_per_period L
                   then [clock s] else []))
     \<and> snd (lock_section L (clock s) domain (times_of s)) =
          (if int (length (in_window L s domain)) < max_requests_per_period L then Admitted
           else Sleep ((hd (in_window L s domain) + period_seconds L) - clock s))
     \<and> (\<not> int (length (in_window L s domain)) < max_requests_per_period L \<longrightarrow>
          in_window L s domain \<noteq> [] \<and>
          (\<forall>t \<in> set (in_window L s domain). hd (in_window L s domain) \<le> t) \<and>
          0 \<le> (hd (in_window L s domain) + period_seconds L) - clock s)
     \<and> snd (acquire L domain drifts s) \<noteq> Raised
     \<and> (\<exists>more. fst (acquire L domain drifts s) = run L t0 (evs @ more))
     \<and> (0 < drift \<longrightarrow> snd (acquire L domain (drift # drifts) s) = Acquired)"
proof -
  have m0: "0 \<le> max_requests_per_period L" using assms(1) by simp
  have b: "bounded L s" unfolding assms(2) using m0 by (rule run_bounded)
  have o: "ordered s" unfolding assms(2) by (rule run_ordered)
  have w: "in_window L s domain = prune (clock s - period_seconds L) (recorded s domain)"
    using o by (rule in_window_prune)
  have c1: "int (length (in_window L s domain)) \<le> max_requests_per_period L"
    using recorded_bounded [OF m0 b, of domain]
      length_prune [of "clock s - period_seconds L" "recorded s domain"] unfolding w by linarith
  have c2: "fst (lock_section L (clock s) domain (times_of s)) domain =
          Some (in_window L s domain
                @ (if int (length (in_window L s domain)) < max_requests_per_period L
                   then [clock s] else []))"
    unfolding w recorded_def by (rule lock_section_same)
  have c3: "snd (lock_section L (clock s) domain (times_of s)) =
          (if int (length (in_window L s domain)) < max_requests_per_period L then Admitted
           else Sleep ((hd (in_window L s domain) + period_seconds L) - clock s))"
    unfolding w recorded_def
    using lock_section_result [OF assms(1), of "clock s" domain "times_of s"]
    by (simp add: Let_def)
  have c4: "\<not> int (length (in_window L s domain)) < max_requests_per_period L \<longrightarrow>
          in_window L s domain \<noteq> [] \<and>
          (\<forall>t \<in> set (in_window L s domain). hd (in_window L s domain) \<le> t) \<and>
          0 \<le> (hd (in_window L s domain) + period_seconds L) - clock s"
  proof (intro impI conjI)
    assume "\<not> int (length (in_window L s domain)) < max_requests_per_period L"
    with assms(1) show ne: "in_window L s domain \<noteq> []" by auto
    show "\<forall>t \<in> set (in_window L s domain). hd (in_window L s domain) \<le> t"
      by (rule in_window_oldest [OF o])
    from ne have "hd (in_window L s domain) \<in> set (in_window L s domain)" by simp
    then have "clock s - period_seconds L \<le> hd (in_window L s domain)"
      unfolding in_window_def by simp
    then show "0 \<le> (hd (in_window L s domain) + period_seconds L) - clock s" by simp
  qed
  have c5: "snd (acquire L domain drifts s) \<noteq> Raised"
    using assms(1) by (rule limiter_never_raises)
  obtain more where "fst (acquire L domain drifts s) = foldl (step L) s more"
    using acquire_is_run [of L domain drifts s] by blast
  then have "fst (acquire L domain drifts s) = run L t0 (evs @ more)"
    by (simp add: assms(2) run_def)
  then have c6: "\<exists>more. fst (acquire L domain drifts s) = run L t0 (evs @ more)" by blast
  have c7: "0 < drift \<longrightarrow> snd (acquire L domain (drift # drifts) s) = Acquired"
    using acquire_after_sleep [OF assms(1) b] by blast
  from c1 c2 c3 c4 c5 c6 c7 show ?thesis by blast
qed

lemma busy_day_state:
  "run two_per_ten 0 busy_day = \<lparr>clock = 11, times_of = [''a.com'' \<mapsto> [0, 4]]\<rparr>"
  by (simp add: run_def started_def two_per_ten_def lock_section_def prune_def busy_day_def)

lemma full_window_state:
  "run two_per_ten 0 full_window = \<lparr>clock = 4, times_of = [''a.com'' \<mapsto> [0, 4]]\<rparr>"
  by (simp add: run_def started_def two_per_ten_def lock_section_def prune_def full_window_def)

theorem acquire_window_invariant_witness:
  "1 \<le> max_requests_per_period two_per_ten \<and>
   in_window two_per_ten (run two_per_ten 0 busy_day) ''a.com'' = [4] \<and>
   fst (lock_section two_per_ten 11 ''a.com'' [''a.com'' \<mapsto> [0, 4]]) ''a.com'' = Some [4, 11] \<and>
   snd (lock_section two_per_ten 11 ''a.com'' [''a.com'' \<mapsto> [0, 4]]) = Admitted \<and>
   in_window two_per_ten (run two_per_ten 0 full_window) ''a.com'' = [0, 4] \<and>
   snd (lock_section two_per_ten 4 ''a.com'' [''a.com'' \<mapsto> [0, 4]]) = Sleep 6 \<and>
   snd (acquire two_per_ten ''a.com'' [1 / 2] (run two_per_ten 0 full_window)) = Acquired \<and>
   recorded (fst (acquire two_per_ten ''a.com'' [1 / 2] (run two_per_ten 0 full_window))) ''a.com''
     = [4, 21 / 2]"
proof -
  have m: "1 \<le> max_requests_per_period two_per_ten" by (simp add: two_per_ten_def)
  have w1: "in_window two_per_ten \<lparr>clock = 11, times_of = [''a.com'' \<mapsto> [0, 4]]\<rparr> ''a.com'' = [4]"
    by (simp add: in_window_def recorded_def two_per_ten_def)
  have w2: "in_window two_per_ten \<lparr>clock = 4, times_of = [''a.com'' \<mapsto> [0, 4]]\<rparr> ''a.com''
      = [0, 4]"
    by (simp add: in_window_def recorded_def two_per_ten_def)
  have r: "recorded (fst (acquire two_per_ten ''a.com'' [1 / 2]
      \<lparr>clock = 4, times_of = [''a.com'' \<mapsto> [0, 4]]\<rparr>)) ''a.com'' = [4, 21 / 2]"
    by (simp add: two_per_ten_def lock_section_def prune_def recorded_def)
  from acquire_window_invariant [OF m refl, of 0 busy_day "''a.com''" "[]" 1]
    acquire_window_invariant [OF m refl, of 0 full_window "''a.com''" "[]" "1 / 2"]
  show ?thesis
    unfolding busy_day_state full_window_state w1 w2 r
    by (simp add: two_per_ten_def del: acquire.simps)
qed

text \<open>
  Claim C1 as it is worded, for every limiter, fails for a maximum below one. With a
  maximum of zero the first pass neither admits nor sleeps: no timestamp is recorded, and
  the read of the oldest one raises \<^verbatim>\<open>IndexError\<close>. With a negative maximum the count 0
  of the freshly started limiter already exceeds the maximum.
\<close>

theorem acquire_without_quota:
  "snd (lock_section zero_per_ten 0 ''a.com'' Map.empty) = RaisedIndexError \<and>
   snd (acquire zero_per_ten ''a.com'' [1, 1] (started 0)) = Raised \<and>
   \<not> int (length (in_window no_requests (run no_requests 0 []) ''a.com''))
       \<le> max_requests_per_period no_requests"
  by (simp add: zero_per_ten_def no_requests_def in_window_def run_def started_def recorded_def
      lock_section_def prune_def)

section \<open>Verification of the fair cap\<close>

lemma remdups_snoc: "remdups (ys @ [x]) = filter (\<lambda>y. y \<noteq> x) (remdups ys) @ [x]"
  by (induction ys) auto

lemma first_seen_Cons: "first_seen (x # xs) = x # filter (\<lambda>y. y \<noteq> x) (first_seen xs)"
  by (simp add: first_seen_def remdups_snoc rev_filter)

lemma first_seen_Nil: "first_seen [] = []"
  by (simp add: first_seen_def)

lemma set_first_seen: "set (first_seen xs) = set xs"
  by (simp add: first_seen_def)

lemma distinct_first_seen: "distinct (first_seen xs)"
  by (simp add: first_seen_def)

text \<open>Filling: generalised over the buckets already present.\<close>

lemma fill_buckets_spec:
  assumes "distinct order" "dom b = set order"
  shows "fill_buckets items b order = (b', order') \<Longrightarrow>
     order' = order @ filter (\<lambda>s. s \<notin> set order) (first_seen (map source items)) \<and>
     dom b' = set order' \<and>
     (\<forall>s \<in> set order'. b' s = Some ((case b s of None \<Rightarrow> [] | Some xs \<Rightarrow> xs) @ bucket_of items s))"
  using assms
proof (induction items arbitrary: b order)
  case Nil
  then show ?case by (fastforce simp: first_seen_Nil bucket_of_def split: option.splits)
next
  case (Cons it items)
  let ?sid = "source it"
  show ?case
  proof (cases "b ?sid")
    case None
    let ?b = "b(?sid \<mapsto> [it])" and ?o = "order @ [?sid]"
    from None Cons.prems have notin: "?sid \<notin> set order" by auto
    from None Cons.prems have run: "fill_buckets items ?b ?o = (b', order')" by (simp add: Let_def)
    have d: "distinct ?o" "dom ?b = set ?o" using Cons.prems notin by auto
    from Cons.IH [OF run d]
    have ih: "order' = ?o @ filter (\<lambda>s. s \<notin> set ?o) (first_seen (map source items))"
      "dom b' = set order'"
      "\<forall>s \<in> set order'. b' s = Some ((case ?b s of None \<Rightarrow> [] | Some xs \<Rightarrow> xs) @ bucket_of items s)"
      by auto
    have o: "order' = order @ filter (\<lambda>s. s \<notin> set order) (first_seen (map source (it # items)))"
      using ih(1) notin by (simp add: first_seen_Cons conj_commute)
    have bk: "\<forall>s \<in> set order'. b' s = Some ((case b s of None \<Rightarrow> [] | Some xs \<Rightarrow> xs) @ bucket_of (it # items) s)"
    proof
      fix s assume "s \<in> set order'"
      with ih(3) have "b' s = Some ((case ?b s of None \<Rightarrow> [] | Some xs \<Rightarrow> xs) @ bucket_of items s)" by blast
      then show "b' s = Some ((case b s of None \<Rightarrow> [] | Some xs \<Rightarrow> xs) @ bucket_of (it # items) s)"
        using None by (auto simp: bucket_of_def)
    qed
    from o ih(2) bk show ?thesis by blast
  next
    case (Some bucket)
    let ?b = "b(?sid \<mapsto> bucket @ [it])"
    from Some Cons.prems have isin: "?sid \<in> set order" by auto
    from Some Cons.prems have run: "fill_buckets items ?b order = (b', order')" by (simp add: Let_def)
    have d: "distinct order" "dom ?b = set order" using Cons.prems isin by auto
    from Cons.IH [OF run d]
    have ih: "order' = order @ filter (\<lambda>s. s \<notin> set order) (first_seen (map source items))"
      "dom b' = set order'"
      "\<forall>s \<in> set order'. b' s = Some ((case ?b s of None \<Rightarrow> [] | Some xs \<Rightarrow> xs) @ bucket_of items s)"
      by auto
    have o: "order' = order @ filter (\<lambda>s. s \<notin> set order) (first_seen (map source (it # items)))"
      using ih(1) isin by (simp add: first_seen_Cons) (metis (mono_tags, lifting) filter_cong)
    have bk: "\<forall>s \<in> set order'. b' s = Some ((case b s of None \<Rightarrow> [] | Some xs \<Rightarrow> xs) @ bucket_of (it # items) s)"
    proof
      fix s assume "s \<in> set order'"
      with ih(3) have "b' s = Some ((case ?b s of None \<Rightarrow> [] | Some xs \<Rightarrow> xs) @ bucket_of items s)" by blast
      then show "b' s = Some ((case b s of None \<Rightarrow> [] | Some xs \<Rightarrow> xs) @ bucket_of (it # items) s)"
        using Some by (auto simp: bucket_of_def)
    qed
    from o ih(2) bk show ?thesis by blast
  qed
qed

lemma heads_simps [simp]:
  "heads [] = []" "heads ([] # xss) = heads xss" "heads ((x # xs) # xss) = x # heads xss"
  by (simp_all add: heads_def)

lemma contents_simps [simp]:
  "contents b [] = []"
  "contents b (s # ss) = (case b s of None \<Rightarrow> [] | Some xs \<Rightarrow> xs) # contents b ss"
  by (simp_all add: contents_def)

lemma contents_upd_other: "sid \<notin> set ss \<Longrightarrow> contents (b(sid \<mapsto> v)) ss = contents b ss"
  by (simp add: contents_def)

lemma contents_cong: "(\<And>s. s \<in> set ss \<Longrightarrow> b s = b' s) \<Longrightarrow> contents b ss = contents b' ss"
  by (simp add: contents_def)

lemma rr_round_spec:
  assumes "distinct ss" "int (length out) < limit"
    and "rr_round ss b out limit p = (b', out', p')"
  shows "(int (length out + length (heads (contents b ss))) < limit \<longrightarrow>
            out' = out @ heads (contents b ss) \<and> (p' \<longleftrightarrow> p \<or> heads (contents b ss) \<noteq> []) \<and>
            (\<forall>s. b' s = (if s \<in> set ss then map_option tl (b s) else b s)))
       \<and> (int (length out + length (heads (contents b ss))) \<ge> limit \<longrightarrow>
            out' = out @ take (nat limit - length out) (heads (contents b ss)) \<and> p')"
  using assms
proof (induction ss arbitrary: b out p)
  case Nil
  then show ?case by auto
next
  case (Cons sid rest)
  have notin: "sid \<notin> set rest" and dr: "distinct rest" using Cons.prems(1) by auto
  show ?case
  proof (cases "b sid = None \<or> b sid = Some []")
    case True
    then have run: "rr_round rest b out limit p = (b', out', p')"
      using Cons.prems(3) by auto
    have hd_eq: "heads (contents b (sid # rest)) = heads (contents b rest)"
      using True by auto
    note ih = Cons.IH [OF dr Cons.prems(2) run]
    have keep: "map_option tl (b sid) = b sid" using True by auto
    show ?thesis
      unfolding hd_eq using ih notin keep by auto
  next
    case False
    then obtain x xs where bs: "b sid = Some (x # xs)"
      by (cases "b sid") (auto simp: neq_Nil_conv)
    have hd_eq: "heads (contents b (sid # rest)) = x # heads (contents b rest)"
      using bs by simp
    let ?b = "b(sid \<mapsto> xs)"
    have cong: "contents ?b rest = contents b rest"
      using notin by (rule contents_upd_other)
    show ?thesis
    proof (cases "int (length (out @ [x])) \<ge> limit")
      case True
      with bs Cons.prems(3) have res: "b' = ?b" "out' = out @ [x]" "p'" by auto
      from True Cons.prems(2) have k: "nat limit - length out = 1" by auto
      show ?thesis unfolding hd_eq using res True k by auto
    next
      case False
      with bs Cons.prems(3)
      have run: "rr_round rest ?b (out @ [x]) limit True = (b', out', p')" by auto
      from False have lt: "int (length (out @ [x])) < limit" by simp
      note ih = Cons.IH [OF dr lt run, unfolded cong]
      have k: "nat limit - length out = Suc (nat limit - length (out @ [x]))"
        using False by auto
      have upd: "\<And>s. (if s \<in> set rest then map_option tl (?b s) else ?b s)
                   = (if s \<in> set (sid # rest) then map_option tl (b s) else b s)"
        using notin bs by auto
      show ?thesis unfolding hd_eq using ih k upd by auto
    qed
  qed
qed

lemma heads_aux: "[h. (h # t) \<leftarrow> xss] = heads xss"
  by (simp add: heads_def transpose_aux_filter_head)

lemma tails_aux: "[t. (h # t) \<leftarrow> xss] = map tl (filter (\<lambda>xs. xs \<noteq> []) xss)"
  by (simp add: transpose_aux_filter_tail)

lemma transpose_drop_empty: "transpose (filter (\<lambda>xs. xs \<noteq> []) xss) = transpose xss"
proof (induction xss rule: transpose.induct)
  case (3 x xs xss)
  have "[h. (h # t) \<leftarrow> filter (\<lambda>xs. xs \<noteq> []) xss] = [h. (h # t) \<leftarrow> xss]"
    and "[t. (h # t) \<leftarrow> filter (\<lambda>xs. xs \<noteq> []) xss] = [t. (h # t) \<leftarrow> xss]"
    by (simp_all add: heads_aux tails_aux heads_def)
  then show ?case by simp
qed simp_all

lemma filter_ne_map_tl:
  "filter (\<lambda>xs. xs \<noteq> []) (map tl (filter (\<lambda>xs. xs \<noteq> []) xss)) = filter (\<lambda>xs. xs \<noteq> []) (map tl xss)"
  by (induction xss) auto

lemma transpose_map_tl: "transpose (map tl (filter (\<lambda>xs. xs \<noteq> []) xss)) = transpose (map tl xss)"
  using transpose_drop_empty [of "map tl (filter (\<lambda>xs. xs \<noteq> []) xss)"]
    transpose_drop_empty [of "map tl xss"]
  by (simp add: filter_ne_map_tl)

lemma transpose_rounds:
  "transpose xss = (if heads xss = [] then [] else heads xss # transpose (map tl xss))"
proof (induction xss rule: transpose.induct)
  case 1
  show ?case by simp
next
  case (2 xss)
  have "transpose (map tl ([] # xss)) = transpose (map tl xss)" by simp
  with 2 show ?case by simp
next
  case (3 x xs xss)
  have "transpose ((x # xs) # xss) = (x # heads xss) # transpose (xs # map tl (filter (\<lambda>xs. xs \<noteq> []) xss))"
    by (simp only: transpose.simps heads_aux tails_aux)
  also have "transpose (xs # map tl (filter (\<lambda>xs. xs \<noteq> []) xss)) = transpose (map tl ((x # xs) # xss))"
    using transpose_map_tl [of "(x # xs) # xss"] by simp
  finally show ?case by simp
qed

lemma contents_tl:
  "(\<forall>s. b' s = (if s \<in> set ss then map_option tl (b s) else b s)) \<Longrightarrow>
     contents b' ss = map tl (contents b ss)"
  by (auto simp: contents_def split: option.splits)

lemma rr_rounds_spec:
  "distinct order \<Longrightarrow>
     rr_rounds order b out limit =
       out @ take (nat limit - length out) (concat (transpose (contents b order)))"
proof (induction order b out limit rule: rr_rounds.induct)
  case (1 order b out limit)
  show ?case
  proof (cases "int (length out) < limit")
    case False
    then show ?thesis by (subst rr_rounds.simps) simp
  next
    case True
    obtain b' out' p' where run: "rr_round order b out limit False = (b', out', p')"
      by (cases "rr_round order b out limit False") auto
    let ?hs = "heads (contents b order)"
    note spec = rr_round_spec [OF "1.prems" True run]
    have unfold: "rr_rounds order b out limit = (if \<not> p' then out' else rr_rounds order b' out' limit)"
      using True run by (subst rr_rounds.simps) simp
    show ?thesis
    proof (cases "int (length out + length ?hs) < limit")
      case short: True
      with spec have res: "out' = out @ ?hs" "p' \<longleftrightarrow> ?hs \<noteq> []"
        "\<forall>s. b' s = (if s \<in> set order then map_option tl (b s) else b s)" by auto
      show ?thesis
      proof (cases "?hs = []")
        case True
        with res unfold have "rr_rounds order b out limit = out" by simp
        moreover have "transpose (contents b order) = []"
          using True by (subst transpose_rounds) simp
        ultimately show ?thesis by simp
      next
        case False
        with res have p: "p'" by simp
        have ih: "rr_rounds order b' out' limit =
          out' @ take (nat limit - length out') (concat (transpose (contents b' order)))"
          using "1.IH" [of b' "(out', p')" out' p'] True run p "1.prems" by simp
        have tr: "transpose (contents b order) = ?hs # transpose (contents b' order)"
          using False contents_tl [OF res(3)] by (subst transpose_rounds) simp
        have len: "length ?hs \<le> nat limit - length out" using short by auto
        show ?thesis
          unfolding unfold tr using p ih res(1) len by simp
      qed
    next
      case long: False
      with spec have res: "out' = out @ take (nat limit - length out) ?hs" "p'" by auto
      have ne: "?hs \<noteq> []" using long True by auto
      have full: "\<not> int (length out') < limit" using res(1) long True by auto
      have "rr_rounds order b' out' limit = out'" using full by (subst rr_rounds.simps) simp
      with unfold res have l: "rr_rounds order b out limit = out @ take (nat limit - length out) ?hs"
        by simp
      have tr: "transpose (contents b order) = ?hs # transpose (map tl (contents b order))"
        using ne by (subst transpose_rounds) simp
      have len: "nat limit - length out \<le> length ?hs" using long by auto
      show ?thesis unfolding l tr using len by simp
    qed
  qed
qed

lemma round_robin_by_source_spec: "round_robin_by_source items limit = fair_cap_spec items limit"
proof (cases "limit \<le> 0")
  case True
  then show ?thesis by (simp add: round_robin_by_source_def fair_cap_spec_def)
next
  case False
  obtain b order where f: "fill_buckets items Map.empty [] = (b, order)"
    by (cases "fill_buckets items Map.empty []") auto
  from fill_buckets_spec [OF _ _ f]
  have o: "order = first_seen (map source items)"
    and bk: "\<forall>s \<in> set order. b s = Some (bucket_of items s)" by auto
  have c: "contents b order = map (bucket_of items) order"
    using bk by (simp add: contents_def)
  have d: "distinct order" using o by (simp add: distinct_first_seen)
  show ?thesis
    using False f rr_rounds_spec [OF d, of b "[]" limit] c o
    by (simp add: round_robin_by_source_def fair_cap_spec_def)
qed

lemma bucket_nonempty: "s \<in> set (map source items) \<Longrightarrow> bucket_of items s \<noteq> []"
  by (auto simp: bucket_of_def filter_empty_conv)

lemma source_hd_bucket: "s \<in> set (map source items) \<Longrightarrow> source (hd (bucket_of items s)) = s"
proof -
  assume "s \<in> set (map source items)"
  then have "bucket_of items s \<noteq> []" by (rule bucket_nonempty)
  then have "hd (bucket_of items s) \<in> set (bucket_of items s)" by simp
  then show ?thesis by (simp add: bucket_of_def)
qed

lemma heads_buckets:
  "set ss \<subseteq> set (map source items) \<Longrightarrow> map source (heads (map (bucket_of items) ss)) = ss"
proof (induction ss)
  case Nil
  show ?case by simp
next
  case (Cons s ss)
  then have "bucket_of items s \<noteq> []" by (intro bucket_nonempty) simp
  then obtain x xs where b: "bucket_of items s = x # xs" by (cases "bucket_of items s") auto
  have "source x = s" using source_hd_bucket [of s items] Cons.prems b by simp
  with Cons b show ?case by simp
qed

lemma fair_cap_sources:
  assumes "nat limit \<le> length (first_seen (map source items))"
  shows "map source (fair_cap_spec items limit) = take (nat limit) (first_seen (map source items))"
proof -
  let ?order = "first_seen (map source items)"
  let ?xss = "map (bucket_of items) ?order"
  have hs: "map source (heads ?xss) = ?order"
    by (rule heads_buckets) (simp add: set_first_seen)
  then have len: "length (heads ?xss) = length ?order"
    by (metis length_map)
  show ?thesis
  proof (cases "heads ?xss = []")
    case True
    with hs have "?order = []" by simp
    then show ?thesis by (simp add: fair_cap_spec_def)
  next
    case False
    then have tr: "transpose ?xss = heads ?xss # transpose (map tl ?xss)"
      by (subst transpose_rounds) simp
    have "fair_cap_spec items limit = take (nat limit) (heads ?xss)"
      using assms len by (simp add: fair_cap_spec_def tr)
    then show ?thesis using hs by (simp add: take_map [symmetric])
  qed
qed

lemma count_in_distinct:
  "distinct xs \<Longrightarrow> length (filter (\<lambda>x. x = s) xs) = (if s \<in> set xs then 1 else 0)"
  by (induction xs) auto

lemma bucket_of_count:
  "length (bucket_of items s) = length (filter (\<lambda>x. x = s) (map source items))"
  by (simp add: bucket_of_def filter_map comp_def)

text \<open>
  Claim C4. For every candidate list and every cap, \<^verbatim>\<open>_round_robin_by_source\<close> returns what
  the specification describes: the candidates are grouped into per-source buckets that keep
  their order, the buckets are visited in source-first-seen order, one candidate is taken
  from each non-empty bucket per round, and the rounds go on until the cap is reached or the
  buckets are empty. In particular, when three sources contribute 10, 1 and 1 candidates, a
  cap of 3 selects three candidates, exactly one from each source.
\<close>

theorem round_robin_by_source_fair:
  "round_robin_by_source items limit = fair_cap_spec items limit
   \<and> (s1 \<noteq> s2 \<and> s1 \<noteq> s3 \<and> s2 \<noteq> s3 \<and> (\<forall>a \<in> set items. source a \<in> {s1, s2, s3}) \<and>
      length (bucket_of items s1) = 10 \<and> length (bucket_of items s2) = 1 \<and>
      length (bucket_of items s3) = 1 \<longrightarrow>
        length (round_robin_by_source items 3) = 3 \<and>
        length (bucket_of (round_robin_by_source items 3) s1) = 1 \<and>
        length (bucket_of (round_robin_by_source items 3) s2) = 1 \<and>
        length (bucket_of (round_robin_by_source items 3) s3) = 1)"
proof (intro conjI impI)
  show "round_robin_by_source items limit = fair_cap_spec items limit"
    by (rule round_robin_by_source_spec)
next
  assume h: "s1 \<noteq> s2 \<and> s1 \<noteq> s3 \<and> s2 \<noteq> s3 \<and> (\<forall>a \<in> set items. source a \<in> {s1, s2, s3}) \<and>
      length (bucket_of items s1) = 10 \<and> length (bucket_of items s2) = 1 \<and>
      length (bucket_of items s3) = 1"
  let ?order = "first_seen (map source items)"
  let ?res = "round_robin_by_source items 3"
  have ne: "bucket_of items s1 \<noteq> []" "bucket_of items s2 \<noteq> []" "bucket_of items s3 \<noteq> []"
    using h by auto
  then have "s1 \<in> set (map source items)" "s2 \<in> set (map source items)" "s3 \<in> set (map source items)"
    by (auto simp: bucket_of_def filter_empty_conv)
  moreover have "set (map source items) \<subseteq> {s1, s2, s3}" using h by auto
  ultimately have so: "set ?order = {s1, s2, s3}" by (auto simp: set_first_seen)
  have d: "distinct ?order" by (rule distinct_first_seen)
  have "card (set ?order) = length ?order" using d by (rule distinct_card)
  with so h have l3: "length ?order = 3" by simp
  have src: "map source ?res = ?order"
    using fair_cap_sources [of 3 items] l3 by (simp add: round_robin_by_source_spec)
  then have "length (map source ?res) = 3" using l3 by simp
  then show "length ?res = 3" by simp
  have cnt: "\<And>s. length (bucket_of ?res s) = (if s \<in> {s1, s2, s3} then 1 else 0)"
    unfolding bucket_of_count src using count_in_distinct [OF d] so by simp
  show "length (bucket_of ?res s1) = 1" "length (bucket_of ?res s2) = 1"
    "length (bucket_of ?res s3) = 1"
    by (simp_all add: cnt)
qed

lemma twelve_run: "map url (round_robin_by_source twelve 3) = [''w0'', ''d0'', ''b0'']"
  by code_simp

theorem round_robin_by_source_fair_witness:
  "map url (round_robin_by_source twelve 3) = [''w0'', ''d0'', ''b0''] \<and>
   round_robin_by_source twelve 3 = fair_cap_spec twelve 3 \<and>
   length (bucket_of twelve ''wire'') = 10 \<and>
   length (bucket_of (round_robin_by_source twelve 3) ''wire'') = 1 \<and>
   length (bucket_of (round_robin_by_source twelve 3) ''desk'') = 1 \<and>
   length (bucket_of (round_robin_by_source twelve 3) ''blog'') = 1"
proof -
  have run: "map url (round_robin_by_source twelve 3) = [''w0'', ''d0'', ''b0'']"
    by code_simp
  have pre: "''wire'' \<noteq> ''desk'' \<and> ''wire'' \<noteq> ''blog'' \<and> ''desk'' \<noteq> ''blog'' \<and>
      (\<forall>a \<in> set twelve. source a \<in> {''wire'', ''desk'', ''blog''}) \<and>
      length (bucket_of twelve ''wire'') = 10 \<and> length (bucket_of twelve ''desk'') = 1 \<and>
      length (bucket_of twelve ''blog'') = 1"
    by (simp add: twelve_def stub_def bucket_of_def)
  show ?thesis
    using round_robin_by_source_fair [of twelve 3 "''wire''" "''desk''" "''blog''"] pre run
    by blast
qed

section \<open>Verification of the merge and cap stages\<close>

lemma heads_empty_concat: "heads xss = [] \<Longrightarrow> concat xss = []"
proof (induction xss)
  case Nil
  show ?case by simp
next
  case (Cons xs xss)
  then show ?case by (cases xs) simp_all
qed

lemma length_concat_heads_tl:
  "length (concat xss) = length (heads xss) + length (concat (map tl xss))"
proof (induction xss)
  case Nil
  show ?case by simp
next
  case (Cons xs xss)
  then show ?case by (cases xs) simp_all
qed

lemma length_concat_transpose: "length (concat (transpose xss)) = length (concat xss)"
proof (induction "length (concat xss)" arbitrary: xss rule: less_induct)
  case less
  show ?case
  proof (cases "heads xss = []")
    case True
    then have "transpose xss = []" by (subst transpose_rounds) simp
    with True show ?thesis by (simp add: heads_empty_concat)
  next
    case False
    then have tr: "transpose xss = heads xss # transpose (map tl xss)"
      by (subst transpose_rounds) simp
    have smaller: "length (concat (map tl xss)) < length (concat xss)"
      using False length_concat_heads_tl [of xss] by simp
    from less [OF smaller] show ?thesis
      by (simp add: tr length_concat_heads_tl [of xss])
  qed
qed

lemma length_buckets_one:
  "distinct ss \<Longrightarrow> x \<in> set ss \<Longrightarrow> length (concat (map (\<lambda>s. if x = s then [a] else []) ss)) = 1"
  by (induction ss) auto

lemma length_concat_buckets:
  "distinct ss \<Longrightarrow> set (map source items) \<subseteq> set ss \<Longrightarrow>
     length (concat (map (bucket_of items) ss)) = length items"
proof (induction items)
  case Nil
  show ?case by (simp add: bucket_of_def)
next
  case (Cons a items)
  have split: "\<And>s. bucket_of (a # items) s = (if source a = s then [a] else []) @ bucket_of items s"
    by (simp add: bucket_of_def)
  have "length (concat (map (bucket_of (a # items)) ss)) =
        length (concat (map (\<lambda>s. if source a = s then [a] else []) ss))
        + length (concat (map (bucket_of items) ss))"
    unfolding split by (induction ss) auto
  also have "length (concat (map (\<lambda>s. if source a = s then [a] else []) ss)) = 1"
    using Cons.prems by (intro length_buckets_one) auto
  also have "length (concat (map (bucket_of items) ss)) = length items"
    using Cons by auto
  finally show ?case by simp
qed

lemma length_round_robin_by_source:
  "length (round_robin_by_source items limit) = min (nat limit) (length items)"
proof -
  have "length (concat (map (bucket_of items) (first_seen (map source items)))) = length items"
    by (rule length_concat_buckets) (simp_all add: distinct_first_seen set_first_seen)
  then show ?thesis
    by (simp add: round_robin_by_source_spec fair_cap_spec_def length_concat_transpose)
qed

lemma length_drop_skipped: "length (drop_skipped skip as) \<le> length as"
  by (simp add: drop_skipped_def split: option.splits)

lemma hard_cap_positive: "hard_cap a b = Some c \<Longrightarrow> 0 < c"
  by (auto simp: hard_cap_def Let_def split: if_splits option.splits)

lemma length_capped:
  assumes "0 < c"
  shows "int (length (capped merged (Some c))) = min c (int (length merged))"
proof (cases "int (length merged) > c")
  case True
  then have "capped merged (Some c) = round_robin_by_source merged c" by (simp add: capped_def)
  moreover have "min (nat c) (length merged) = nat c" using True assms by linarith
  ultimately show ?thesis using True assms by (simp add: length_round_robin_by_source)
next
  case False
  then show ?thesis by (simp add: capped_def)
qed

lemma candidates_to_scrape_bound:
  assumes "hard_cap (max_articles_setting configured) max_items = Some c"
    and "int (length (merged_candidates rss discovered skip_urls)) \<ge> c"
  shows "int (length (candidates_to_scrape rss discovered skip_urls configured max_items)) \<le> c"
proof -
  let ?m = "merged_candidates rss discovered skip_urls"
  from assms(1) have c: "0 < c" by (auto dest: hard_cap_positive)
  have "int (length (capped ?m (Some c))) = c" using length_capped [OF c, of ?m] assms(2) by simp
  moreover have "length (drop_skipped skip_urls (capped ?m (Some c))) \<le> length (capped ?m (Some c))"
    by (rule length_drop_skipped)
  ultimately show ?thesis
    using assms(1) by (simp add: candidates_to_scrape_def Let_def)
qed

text \<open>
  Claim C5 against the code. The configuration has no \<^verbatim>\<open>max_articles_per_run\<close> and
  \<^verbatim>\<open>max_items\<close> is 1, so the cap is 1. The feeds yield nothing, discovery yields two
  candidates of one source, and the URL of the first is in \<^verbatim>\<open>skip_urls\<close>. The merged list
  has both candidates, and with the URLs of \<^verbatim>\<open>skip_urls\<close> removed it has one, as many as
  the cap. \<^verbatim>\<open>run_pipeline\<close> nevertheless passes no candidate on to the scraping stage: the cap
  selects the first candidate, and the removal that follows the cap drops it. The same two
  candidates arriving through the feeds, which are filtered before the merge, leave the
  second one to be scraped.
\<close>

theorem skip_filter_follows_cap:
  "hard_cap (max_articles_setting None) 1 = Some 1 \<and>
   map url (merged_candidates [] seen_and_new (Some {''https://w.example/a''}))
     = [''https://w.example/a'', ''https://w.example/b''] \<and>
   map url (stage2_spec [] seen_and_new (Some {''https://w.example/a''}))
     = [''https://w.example/b''] \<and>
   candidates_to_scrape [] seen_and_new (Some {''https://w.example/a''}) None 1 = [] \<and>
   map url (candidates_to_scrape seen_and_new [] (Some {''https://w.example/a''}) None 1)
     = [''https://w.example/b'']"
  by code_simp

section \<open>Verification of the row normalisation\<close>

lemma sum_squares_nonneg: "0 \<le> sum_list (map (\<lambda>x. x * x) (w::real list))"
  by (induction w) auto

lemma sum_squares_zero: "sum_list (map (\<lambda>x. x * x) (w::real list)) = 0 \<longleftrightarrow> (\<forall>x \<in> set w. x = 0)"
proof (induction w)
  case Nil
  show ?case by simp
next
  case (Cons a w)
  have "a * a + sum_list (map (\<lambda>x. x * x) w) = 0 \<longleftrightarrow> a * a = 0 \<and> sum_list (map (\<lambda>x. x * x) w) = 0"
    using sum_squares_nonneg [of w] by (intro add_nonneg_eq_0_iff) auto
  with Cons show ?case by simp
qed


lemma l2_zero_iff: "l2 w = 0 \<longleftrightarrow> (\<forall>x \<in> set w. x = 0)"
  by (simp add: l2_def sum_squares_zero)


lemma l2_normalize_zero: "l2 w = 0 \<Longrightarrow> l2_normalize w = w"
proof -
  assume z: "l2 w = 0"
  then have "\<forall>x \<in> set w. x = 0" by (simp add: l2_zero_iff)
  then have "map (\<lambda>x. x / 1) w = w" by (induction w) auto
  with z show ?thesis by (simp add: l2_normalize_def safe_norm_def)
qed



lemma dot_scaled:
  "dot (map (\<lambda>x. x / a) u) (map (\<lambda>x. x / b) v) = dot u v / (a * b)"
proof (induction u arbitrary: v)
  case Nil
  show ?case by (simp add: dot_def)
next
  case (Cons x u)
  show ?case
  proof (cases v)
    case Nil
    then show ?thesis by (simp add: dot_def)
  next
    case (Cons y v')
    with Cons.IH [of v'] show ?thesis
      by (simp add: dot_def add_divide_distrib)
  qed
qed

lemma dot_zero_left: "\<forall>x \<in> set u. x = 0 \<Longrightarrow> dot u v = 0"
proof (induction u arbitrary: v)
  case Nil
  show ?case by (simp add: dot_def)
next
  case (Cons x u)
  then show ?case by (cases v) (auto simp: dot_def)
qed

lemma dot_commute: "dot u v = dot v u"
proof (induction u arbitrary: v)
  case Nil
  show ?case by (simp add: dot_def)
next
  case (Cons x u)
  then show ?case by (cases v) (auto simp: dot_def)
qed

lemma l2_euclidean: "l2 w = euclidean_norm w"
  by (simp add: l2_def euclidean_norm_def power2_eq_square)

lemma dot_inner: "dot u v = inner_product u v"
  by (simp add: dot_def inner_product_def)

lemma cosine_unfold:
  "cosine u v = (if l2 u = 0 \<or> l2 v = 0 then 0 else dot u v / (l2 u * l2 v))"
  by (simp add: cosine_def l2_euclidean dot_inner)

lemma dot_normalized_cosine: "dot (l2_normalize u) (l2_normalize v) = cosine u v"
proof (cases "l2 u = 0 \<or> l2 v = 0")
  case True
  then have "(\<forall>x \<in> set (l2_normalize u). x = 0) \<or> (\<forall>x \<in> set (l2_normalize v). x = 0)"
    by (auto simp: l2_normalize_zero l2_zero_iff)
  then have "dot (l2_normalize u) (l2_normalize v) = 0"
    using dot_zero_left [of "l2_normalize u" "l2_normalize v"]
      dot_zero_left [of "l2_normalize v" "l2_normalize u"] dot_commute [of "l2_normalize u"]
    by auto
  with True show ?thesis by (simp add: cosine_unfold)
next
  case False
  then show ?thesis
    by (simp add: cosine_unfold l2_normalize_def safe_norm_def dot_scaled)
qed








section \<open>Verification of the vocabulary\<close>

lemma keys_counter_inc:
  "map fst (counter_inc c t) = (if t \<in> fst ` set c then map fst c else map fst c @ [t])"
  by (induction c t rule: counter_inc.induct) auto

lemma get_counter_inc:
  "counter_get (counter_inc c t) k = counter_get c k + (if k = t then 1 else 0)"
  by (induction c t rule: counter_inc.induct) (auto simp: counter_get_def)

lemma key_set_counter_inc: "fst ` set (counter_inc c t) = insert t (fst ` set c)"
  using keys_counter_inc [of c t, THEN arg_cong, of set] by (auto split: if_splits)

lemma keys_counter_update:
  "fst ` set (counter_update c ts) = fst ` set c \<union> set ts"
  unfolding counter_update_def
  by (induction ts arbitrary: c) (simp_all add: key_set_counter_inc)

lemma distinct_counter_inc: "distinct (map fst c) \<Longrightarrow> distinct (map fst (counter_inc c t))"
  by (simp add: keys_counter_inc)

lemma distinct_counter_update:
  "distinct (map fst c) \<Longrightarrow> distinct (map fst (counter_update c ts))"
  unfolding counter_update_def
  by (induction ts arbitrary: c) (simp_all add: distinct_counter_inc)

lemma get_counter_update:
  "counter_get (counter_update c ts) k = counter_get c k + count_list ts k"
  unfolding counter_update_def
  by (induction ts arbitrary: c) (simp_all add: get_counter_inc)

lemma count_list_remdups: "count_list (remdups xs) k = (if k \<in> set xs then 1 else 0)"
  by (induction xs) auto

lemma df_from_props:
  "distinct (map fst c) \<Longrightarrow>
     distinct (map fst (df_from c texts r)) \<and>
     fst ` set (df_from c texts r) = fst ` set c \<union> corpus_terms texts r \<and>
     (\<forall>k. counter_get (df_from c texts r) k = counter_get c k + doc_freq texts r k)"
proof (induction texts arbitrary: c)
  case Nil
  then show ?case by (simp add: df_from_def corpus_terms_def doc_freq_def)
next
  case (Cons doc texts)
  let ?c = "counter_update c (remdups (terms_of r doc))"
  have d: "distinct (map fst ?c)" using Cons.prems by (rule distinct_counter_update)
  have step: "df_from c (doc # texts) r = df_from ?c texts r" by (simp add: df_from_def)
  from Cons.IH [OF d] show ?case
    unfolding step
    by (auto simp: keys_counter_update get_counter_update count_list_remdups
        corpus_terms_def doc_freq_def)
qed

lemma df_counter_props:
  "distinct (map fst (df_counter texts r))"
  "fst ` set (df_counter texts r) = corpus_terms texts r"
  "counter_get (df_counter texts r) k = doc_freq texts r k"
  using df_from_props [of "[]" texts r]
  by (simp_all add: df_from_def df_counter_def counter_get_def)

lemma counter_entry:
  "distinct (map fst c) \<Longrightarrow> (t, v) \<in> set c \<Longrightarrow> counter_get c t = v"
  by (simp add: counter_get_def)

lemma ranked_items_distinct: "distinct (map fst (ranked_items texts r min_df))"
proof -
  let ?xs = "filter (\<lambda>(t, c). int c \<ge> min_df) (df_counter texts r)"
  have "distinct (map fst ?xs)"
    using df_counter_props(1) [of texts r] by (rule distinct_map_filter)
  then have "distinct ?xs \<and> inj_on fst (set ?xs)" by (simp add: distinct_map)
  then show ?thesis by (simp add: ranked_items_def distinct_map)
qed

lemma ranked_items_entry:
  "(t, c) \<in> set (ranked_items texts r min_df) \<Longrightarrow>
     c = doc_freq texts r t \<and> t \<in> corpus_terms texts r \<and> min_df \<le> int c"
proof -
  assume "(t, c) \<in> set (ranked_items texts r min_df)"
  then have m: "(t, c) \<in> set (df_counter texts r)" and p: "min_df \<le> int c"
    by (auto simp: ranked_items_def)
  from m have "counter_get (df_counter texts r) t = c"
    using df_counter_props(1) by (intro counter_entry)
  then have "c = doc_freq texts r t" by (simp add: df_counter_props(3))
  moreover from m have "t \<in> fst ` set (df_counter texts r)" by force
  then have "t \<in> corpus_terms texts r" by (simp add: df_counter_props(2))
  ultimately show ?thesis using p by simp
qed

lemma ranked_items_terms:
  "set (map fst (ranked_items texts r min_df)) =
     {t \<in> corpus_terms texts r. min_df \<le> int (doc_freq texts r t)}"
proof (intro set_eqI iffI)
  fix t assume "t \<in> set (map fst (ranked_items texts r min_df))"
  then obtain c where "(t, c) \<in> set (ranked_items texts r min_df)" by auto
  from ranked_items_entry [OF this]
  show "t \<in> {t \<in> corpus_terms texts r. min_df \<le> int (doc_freq texts r t)}" by simp
next
  fix t assume "t \<in> {t \<in> corpus_terms texts r. min_df \<le> int (doc_freq texts r t)}"
  then have t: "t \<in> corpus_terms texts r" "min_df \<le> int (doc_freq texts r t)" by simp_all
  from t(1) have "t \<in> fst ` set (df_counter texts r)" by (simp add: df_counter_props(2))
  then obtain c where m: "(t, c) \<in> set (df_counter texts r)" by auto
  then have "counter_get (df_counter texts r) t = c"
    using df_counter_props(1) by (intro counter_entry)
  then have "c = doc_freq texts r t" by (simp add: df_counter_props(3))
  with m t(2) have "(t, c) \<in> set (ranked_items texts r min_df)"
    by (simp add: ranked_items_def)
  then show "t \<in> set (map fst (ranked_items texts r min_df))" by force
qed

lemma ranked_items_sorted:
  "sorted_wrt (ranks_before texts r) (map fst (ranked_items texts r min_df))"
proof -
  let ?key = "\<lambda>(t, c). (- int c, t :: string)"
  let ?items = "ranked_items texts r min_df"
  have s: "sorted (map ?key ?items)" by (simp add: ranked_items_def)
  have "inj_on fst (set ?items)"
    using ranked_items_distinct [of texts r min_df] by (simp add: distinct_map)
  then have "inj_on ?key (set ?items)"
    by (auto simp: inj_on_def)
  moreover have "distinct ?items"
    using ranked_items_distinct [of texts r min_df] by (simp add: distinct_map)
  ultimately have d: "distinct (map ?key ?items)" by (simp add: distinct_map)
  from s d have "sorted_wrt (<) (map ?key ?items)" by (simp add: strict_sorted_iff)
  then have "sorted_wrt (\<lambda>a b. ?key a < ?key b) ?items" by (simp add: sorted_wrt_map)
  then have "sorted_wrt (\<lambda>a b. ranks_before texts r (fst a) (fst b)) ?items"
  proof (rule sorted_wrt_mono_rel [rotated])
    fix a b assume a: "a \<in> set ?items" and b: "b \<in> set ?items" and lt: "?key a < ?key b"
    obtain t c where [simp]: "a = (t, c)" by (cases a)
    obtain t' c' where [simp]: "b = (t', c')" by (cases b)
    from a have "c = doc_freq texts r t" using ranked_items_entry [of t c] by simp
    moreover from b have "c' = doc_freq texts r t'" using ranked_items_entry [of t' c'] by simp
    ultimately show "ranks_before texts r (fst a) (fst b)"
      using lt by (auto simp: ranks_before_def less_prod_def)
  qed
  then show ?thesis by (simp add: sorted_wrt_map)
qed

lemma foldl_assign:
  "length ts \<le> length a0 \<Longrightarrow>
     foldl (\<lambda>a (t, i). a[i := f t]) a0 (zip ts [0 ..< length ts]) = map f ts @ drop (length ts) a0"
proof (induction ts rule: rev_induct)
  case Nil
  show ?case by simp
next
  case (snoc t ts)
  then have le: "length ts \<le> length a0" and lt: "length ts < length a0" by simp_all
  have z: "zip (ts @ [t]) [0 ..< length (ts @ [t])] = zip ts [0 ..< length ts] @ [(t, length ts)]"
    by simp
  have "(map f ts @ drop (length ts) a0)[length ts := f t] = map f ts @ (drop (length ts) a0)[0 := f t]"
    by (simp add: list_update_append)
  also have "(drop (length ts) a0)[0 := f t] = f t # drop (Suc (length ts)) a0"
    using lt by (simp add: Cons_nth_drop_Suc [symmetric])
  finally show ?case using snoc.IH [OF le] by (simp add: z)
qed

lemma py_prefix_map: "map f (py_prefix n xs) = py_prefix n (map f xs)"
  by (simp add: py_prefix_def take_map)

lemma py_prefix_nonneg: "0 \<le> n \<Longrightarrow> py_prefix n xs = take (nat n) xs"
  by (simp add: py_prefix_def py_bound_def min_def)

lemma fit_tfidf_unfold:
  "vocab (fit_tfidf texts mf r min_df) =
     zip (py_prefix mf (map fst (ranked_items texts r min_df)))
         [0 ..< length (py_prefix mf (map fst (ranked_items texts r min_df)))]"
  "idf (fit_tfidf texts mf r min_df) =
     map (\<lambda>t. smooth_idf (max 1 (length texts)) (doc_freq texts r t))
         (py_prefix mf (map fst (ranked_items texts r min_df)))"
proof -
  let ?items = "py_prefix mf (ranked_items texts r min_df)"
  let ?terms = "map fst ?items"
  have t: "?terms = py_prefix mf (map fst (ranked_items texts r min_df))" by (rule py_prefix_map)
  show "vocab (fit_tfidf texts mf r min_df) =
     zip (py_prefix mf (map fst (ranked_items texts r min_df)))
         [0 ..< length (py_prefix mf (map fst (ranked_items texts r min_df)))]"
    unfolding t [symmetric] by (simp add: fit_tfidf_def Let_def)
  have "idf (fit_tfidf texts mf r min_df) =
      foldl (\<lambda>a (term, idx). a[idx := smooth_idf (max 1 (length texts)) (counter_get (df_counter texts r) term)])
        (replicate (length ?terms) 0) (zip ?terms [0 ..< length ?terms])"
    by (simp add: fit_tfidf_def Let_def)
  also have "\<dots> = map (\<lambda>t. smooth_idf (max 1 (length texts)) (counter_get (df_counter texts r) t)) ?terms
      @ drop (length ?terms) (replicate (length ?terms) 0)"
    by (rule foldl_assign) simp
  finally show "idf (fit_tfidf texts mf r min_df) =
     map (\<lambda>t. smooth_idf (max 1 (length texts)) (doc_freq texts r t))
         (py_prefix mf (map fst (ranked_items texts r min_df)))"
    unfolding t by (simp add: df_counter_props(3))
qed

text \<open>
  Claim C7. For every corpus, the vocabulary that \<^verbatim>\<open>fit_tfidf\<close> builds is the ranking of the
  corpus terms whose document frequency (the number of documents containing the term at
  least once) is at least \<^verbatim>\<open>min_df\<close>, by descending document frequency and then ascending
  lexicographic order, cut by the slice \<^verbatim>\<open>[:max_features]\<close>, which for a \<^verbatim>\<open>max_features\<close> that
  is not negative keeps the top \<^verbatim>\<open>max_features\<close> terms; the column indices count up from 0 in
  that rank order; and the weight of each kept term is \<^verbatim>\<open>ln((1 + N) / (1 + df)) + 1\<close> with
  \<^verbatim>\<open>N = max(1, len(texts))\<close>.
\<close>

theorem fit_tfidf_vocabulary:
  "\<exists>ranked.
     distinct ranked \<and>
     set ranked = {t \<in> corpus_terms texts r. min_df \<le> int (doc_freq texts r t)} \<and>
     sorted_wrt (ranks_before texts r) ranked \<and>
     map fst (vocab (fit_tfidf texts max_features r min_df)) = py_prefix max_features ranked \<and>
     (0 \<le> max_features \<longrightarrow>
        map fst (vocab (fit_tfidf texts max_features r min_df)) = take (nat max_features) ranked) \<and>
     map snd (vocab (fit_tfidf texts max_features r min_df))
       = [0 ..< length (vocab (fit_tfidf texts max_features r min_df))] \<and>
     idf (fit_tfidf texts max_features r min_df)
       = map (\<lambda>t. ln ((1 + real (max 1 (length texts))) / (1 + real (doc_freq texts r t))) + 1)
           (map fst (vocab (fit_tfidf texts max_features r min_df)))"
proof -
  let ?ranked = "map fst (ranked_items texts r min_df)"
  let ?M = "fit_tfidf texts max_features r min_df"
  have v: "map fst (vocab ?M) = py_prefix max_features ?ranked"
    and n: "map snd (vocab ?M) = [0 ..< length (vocab ?M)]"
    by (simp_all add: fit_tfidf_unfold(1))
  have i: "idf ?M = map (\<lambda>t. ln ((1 + real (max 1 (length texts))) / (1 + real (doc_freq texts r t))) + 1)
           (map fst (vocab ?M))"
    unfolding v by (simp add: fit_tfidf_unfold(2) smooth_idf_def)
  have p: "0 \<le> max_features \<longrightarrow> map fst (vocab ?M) = take (nat max_features) ?ranked"
    unfolding v by (simp add: py_prefix_nonneg)
  show ?thesis
    using ranked_items_distinct [of texts r min_df] ranked_items_terms [of texts r min_df]
      ranked_items_sorted [of texts r min_df] v p n i
    by (intro exI [of _ ?ranked] conjI)
qed

lemma headlines_ranked:
  "ranked_items headlines (1, 2) 2 = [(''fed'', 2), (''rates'', 2)]"
  "doc_freq headlines (1, 2) ''fed'' = 2"
  "doc_freq headlines (1, 2) ''rates'' = 2"
  by code_simp+

theorem fit_tfidf_vocabulary_witness:
  "vocab (fit_tfidf headlines 8000 (1, 2) 2) = [(''fed'', 0), (''rates'', 1)] \<and>
   idf (fit_tfidf headlines 8000 (1, 2) 2) = [ln (4 / 3) + 1, ln (4 / 3) + 1]"
proof -
  have v: "vocab (fit_tfidf headlines 8000 (1, 2) 2) = [(''fed'', 0), (''rates'', 1)]"
    by (simp add: fit_tfidf_unfold(1) headlines_ranked py_prefix_nonneg)
  have len: "length headlines = 3" by (simp add: headlines_def)
  from fit_tfidf_vocabulary [of headlines "(1, 2)" 2 8000]
  have "idf (fit_tfidf headlines 8000 (1, 2) 2)
       = map (\<lambda>t. ln ((1 + real (max 1 (length headlines))) / (1 + real (doc_freq headlines (1, 2) t))) + 1)
           (map fst (vocab (fit_tfidf headlines 8000 (1, 2) 2)))"
    by blast
  then have "idf (fit_tfidf headlines 8000 (1, 2) 2) = [ln (4 / 3) + 1, ln (4 / 3) + 1]"
    by (simp add: v headlines_ranked len)
  with v show ?thesis by simp
qed

section \<open>Verification of the dedup engine\<close>

lemma first_greatest_props:
  "xs \<noteq> [] \<Longrightarrow>
     first_greatest xs < length xs \<and>
     (\<forall>j < length xs. xs ! j \<le> xs ! first_greatest xs) \<and>
     (\<forall>j < first_greatest xs. xs ! j < xs ! first_greatest xs)"
proof (induction xs rule: first_greatest.induct)
  case 1
  then show ?case by simp
next
  case (2 x)
  show ?case by simp
next
  case (3 x y ys)
  let ?i = "first_greatest (y # ys)"
  from 3 have ih: "?i < length (y # ys)" "\<forall>j < length (y # ys). (y # ys) ! j \<le> (y # ys) ! ?i"
    "\<forall>j < ?i. (y # ys) ! j < (y # ys) ! ?i" by simp_all
  show ?case
  proof (cases "x \<ge> (y # ys) ! ?i")
    case True
    then have fg: "first_greatest (x # y # ys) = 0" by (simp add: Let_def)
    have "\<forall>j < length (x # y # ys). (x # y # ys) ! j \<le> x"
    proof (intro allI impI)
      fix j assume "j < length (x # y # ys)"
      then show "(x # y # ys) ! j \<le> x"
        using ih(2) True by (cases j) (auto intro: order_trans)
    qed
    then show ?thesis unfolding fg by simp
  next
    case False
    then have fg: "first_greatest (x # y # ys) = Suc ?i" by (simp add: Let_def)
    have a: "\<forall>j < length (x # y # ys). (x # y # ys) ! j \<le> (x # y # ys) ! Suc ?i"
    proof (intro allI impI)
      fix j assume "j < length (x # y # ys)"
      then show "(x # y # ys) ! j \<le> (x # y # ys) ! Suc ?i"
        using ih(2) False by (cases j) auto
    qed
    have b: "\<forall>j < Suc ?i. (x # y # ys) ! j < (x # y # ys) ! Suc ?i"
    proof (intro allI impI)
      fix j assume "j < Suc ?i"
      then show "(x # y # ys) ! j < (x # y # ys) ! Suc ?i"
        using ih(3) False by (cases j) auto
    qed
    show ?thesis unfolding fg using ih(1) a b by simp
  qed
qed

text \<open>Rows of a well-formed model.\<close>

lemma fill_row_ok:
  "(\<forall>(t, col) \<in> set voc. col < length row) \<Longrightarrow>
     \<exists>row'. fill_row voc tf row = Inr row' \<and> length row' = length row"
proof (induction voc tf row rule: fill_row.induct)
  case (1 voc row)
  show ?case by simp
next
  case (2 voc t count tf row)
  show ?case
  proof (cases "map_of voc t")
    case None
    with 2 show ?thesis by simp
  next
    case (Some col)
    then have "(t, col) \<in> set voc" by (rule map_of_SomeD)
    with "2.prems" have lt: "col < length row" by auto
    have "\<forall>(t', c') \<in> set voc. c' < length (row[col := real count])"
      using "2.prems" by simp
    from "2.IH"(2) [OF Some lt this] Some lt show ?thesis by simp
  qed
qed

lemma fill_row_unknown:
  "(\<forall>(t, c) \<in> set tf. map_of voc t = None) \<Longrightarrow> fill_row voc tf row = Inr row"
  by (induction voc tf row rule: fill_row.induct) auto

lemma all_rows_ok:
  "(\<forall>x \<in> set xs. \<exists>y. f x = Inr y \<and> P y) \<Longrightarrow>
     \<exists>ys. all_rows f xs = Inr ys \<and> length ys = length xs \<and> (\<forall>y \<in> set ys. P y)"
proof (induction xs)
  case Nil
  show ?case by simp
next
  case (Cons x xs)
  then obtain y where y: "f x = Inr y" "P y" by auto
  from Cons obtain ys where ys: "all_rows f xs = Inr ys" "length ys = length xs" "\<forall>y \<in> set ys. P y"
    by auto
  from y ys show ?case by simp
qed

lemma all_rows_nth:
  "all_rows f xs = Inr ys \<Longrightarrow> i < length xs \<Longrightarrow> f (xs ! i) = Inr (ys ! i)"
proof (induction xs arbitrary: ys i)
  case Nil
  then show ?case by simp
next
  case (Cons x xs)
  then show ?case
    by (cases i) (auto split: sum.splits)
qed

lemma all_rows_length: "all_rows f xs = Inr ys \<Longrightarrow> length ys = length xs"
  by (induction xs arbitrary: ys) (auto split: sum.splits)

lemma fit_vocab_cols:
  "\<forall>(t, col) \<in> set (vocab (fit_tfidf texts mf r min_df)). col < length (vocab (fit_tfidf texts mf r min_df))"
proof -
  let ?ts = "py_prefix mf (map fst (ranked_items texts r min_df))"
  have v: "vocab (fit_tfidf texts mf r min_df) = zip ?ts [0 ..< length ?ts]"
    by (rule fit_tfidf_unfold(1))
  show ?thesis unfolding v by (auto dest!: set_zip_rightD)
qed

lemma fit_idf_length:
  "length (idf (fit_tfidf texts mf r min_df)) = length (vocab (fit_tfidf texts mf r min_df))"
  by (simp add: fit_tfidf_unfold)

lemma fit_vocab_keys:
  "fst ` set (vocab (fit_tfidf texts mf r min_df)) \<subseteq>
     {t \<in> corpus_terms texts r. min_df \<le> int (doc_freq texts r t)}"
proof -
  let ?ranked = "map fst (ranked_items texts r min_df)"
  have "map fst (vocab (fit_tfidf texts mf r min_df)) = py_prefix mf ?ranked"
    by (simp add: fit_tfidf_unfold(1))
  then have "fst ` set (vocab (fit_tfidf texts mf r min_df)) = set (py_prefix mf ?ranked)"
    by (metis set_map)
  also have "\<dots> \<subseteq> set ?ranked" by (auto simp: py_prefix_def dest: in_set_takeD)
  finally show ?thesis by (simp only: ranked_items_terms)
qed

lemma weights_fit_ok:
  "\<exists>W. tfidf_weights docs (fit_tfidf texts mf r min_df) r' = Inr W \<and> length W = length docs"
proof -
  let ?M = "fit_tfidf texts mf r min_df"
  have "\<forall>x \<in> set docs. \<exists>y. count_row ?M r' x = Inr y \<and> True"
  proof
    fix x
    have "\<forall>(t, col) \<in> set (vocab ?M). col < length (replicate (length (vocab ?M)) (0::real))"
      using fit_vocab_cols [of texts mf r min_df] by simp
    from fill_row_ok [OF this]
    show "\<exists>y. count_row ?M r' x = Inr y \<and> True" by (auto simp: count_row_def)
  qed
  from all_rows_ok [OF this] obtain X where X: "all_rows (count_row ?M r') docs = Inr X"
    "length X = length docs" by auto
  have "broadcast_idf (length (vocab ?M)) (idf ?M) = Inr (idf ?M)"
    by (simp add: broadcast_idf_def fit_idf_length)
  with X show ?thesis by (simp add: tfidf_weights_def)
qed

lemma batch_similarities_ok:
  "\<exists>sims W. batch_similarities cand rt = Inr sims \<and> length sims = length rt \<and>
     tfidf_weights (cand # rt) (batch_model cand rt) (1, 2) = Inr W \<and> length W = Suc (length rt) \<and>
     (\<forall>j < length rt. sims ! j = cosine (W ! Suc j) (W ! 0))"
proof -
  obtain W where W: "tfidf_weights (cand # rt) (batch_model cand rt) (1, 2) = Inr W"
    "length W = length (cand # rt)"
    using weights_fit_ok [of "cand # rt" "cand # rt" 8000 "(1, 2)" 2 "(1, 2)"]
    by (auto simp: batch_model_def)
  then obtain w0 ws where ws: "W = w0 # ws" "length ws = length rt" by (cases W) auto
  let ?sims = "map (\<lambda>row. dot row (l2_normalize w0)) (map l2_normalize ws)"
  have b: "batch_similarities cand rt = Inr ?sims"
    using W(1) ws(1) by (simp add: batch_similarities_def transform_tfidf_def similarities_def)
  have "\<forall>j < length rt. ?sims ! j = cosine (W ! Suc j) (W ! 0)"
    using ws by (simp add: dot_normalized_cosine)
  with b W ws show ?thesis by (intro exI [of _ ?sims] exI [of _ W]) simp
qed

lemma dedup_unfold:
  assumes "cand \<noteq> []" "rt \<noteq> []" "batch_similarities cand rt = Inr sims" "length sims = length rt"
  shows "dedup_against_recent cand u rt ru th =
     (if sims ! first_greatest sims \<ge> th
      then (case py_index ru (first_greatest sims) of
              Inl e \<Rightarrow> Inl e
            | Inr v \<Rightarrow> Inr \<lparr>is_duplicate = True, duplicate_of_url = Some v,
                            best_similarity = sims ! first_greatest sims\<rparr>)
      else Inr (not_duplicate (sims ! first_greatest sims)))"
proof -
  from assms have "sims \<noteq> []" by auto
  with assms show ?thesis
    by (simp add: dedup_against_recent_def dedup_against_recent_with_def argmax_def Let_def)
qed

lemma twin_facts:
  "ranked_items [twin, twin] (1, 2) 2 = [(''alpha'', 2), (''alpha beta'', 2), (''beta'', 2)]"
  "doc_freq [twin, twin] (1, 2) ''alpha'' = 2"
  "doc_freq [twin, twin] (1, 2) ''alpha beta'' = 2"
  "doc_freq [twin, twin] (1, 2) ''beta'' = 2"
  "counter_update [] (terms_of (1, 2) twin) = [(''alpha'', 1), (''beta'', 1), (''alpha beta'', 1)]"
  "twin \<noteq> []"
  by code_simp+

lemma twin_model:
  "batch_model twin [twin] = \<lparr>vocab = [(''alpha'', 0), (''alpha beta'', 1), (''beta'', 2)], idf = [1, 1, 1]\<rparr>"
proof -
  have v: "vocab (batch_model twin [twin]) = [(''alpha'', 0), (''alpha beta'', 1), (''beta'', 2)]"
    by (simp add: batch_model_def fit_tfidf_unfold(1) twin_facts py_prefix_nonneg)
  have i: "idf (batch_model twin [twin]) = [1, 1, 1]"
    by (simp add: batch_model_def fit_tfidf_unfold(2) twin_facts py_prefix_nonneg smooth_idf_def)
  from v i show ?thesis by (cases "batch_model twin [twin]") simp
qed

lemma twin_weights:
  "tfidf_weights [twin, twin] (batch_model twin [twin]) (1, 2) = Inr [[1, 1, 1], [1, 1, 1]]"
  by (simp add: tfidf_weights_def count_row_def twin_model twin_facts broadcast_idf_def)

lemma twin_cosine: "cosine [1, 1, 1] [1, 1, 1] = 1"
  by (simp add: cosine_unfold l2_def dot_def)




text \<open>
  Claim C10. When \<^verbatim>\<open>recent_texts\<close> and \<^verbatim>\<open>recent_urls\<close> have the same length,
  \<^verbatim>\<open>dedup_against_recent\<close> returns a result and raises nothing, and the index that
  \<^verbatim>\<open>argmax\<close> yields on the similarity vector is below the length of \<^verbatim>\<open>recent_urls\<close>, so the
  lookup is in bounds.
\<close>

theorem dedup_against_recent_total:
  "length ru = length rt \<Longrightarrow>
     (\<exists>res. dedup_against_recent cand u rt ru th = Inr res) \<and>
     (cand \<noteq> [] \<and> rt \<noteq> [] \<longrightarrow>
        (\<exists>sims i. batch_similarities cand rt = Inr sims \<and> argmax sims = Inr i \<and>
           i < length ru \<and> py_index ru i = Inr (ru ! i)))"
proof (intro conjI impI)
  assume len: "length ru = length rt"
  show "\<exists>res. dedup_against_recent cand u rt ru th = Inr res"
  proof (cases "cand = [] \<or> rt = []")
    case True
    then show ?thesis by (auto simp: dedup_against_recent_def dedup_against_recent_with_def)
  next
    case False
    obtain sims where b: "batch_similarities cand rt = Inr sims" "length sims = length rt"
      using batch_similarities_ok [of cand rt] by blast
    have "sims \<noteq> []" using b(2) False by auto
    from first_greatest_props [OF this] have "first_greatest sims < length ru"
      using b(2) len by simp
    then show ?thesis
      using dedup_unfold [of cand rt sims u ru th, OF _ _ b] False
      by (simp add: py_index_def)
  qed
next
  assume len: "length ru = length rt" and ne: "cand \<noteq> [] \<and> rt \<noteq> []"
  obtain sims where b: "batch_similarities cand rt = Inr sims" "length sims = length rt"
    using batch_similarities_ok [of cand rt] by blast
  have s: "sims \<noteq> []" using b(2) ne by auto
  from first_greatest_props [OF this] have "first_greatest sims < length ru"
    using b(2) len by simp
  with b s show "\<exists>sims i. batch_similarities cand rt = Inr sims \<and> argmax sims = Inr i \<and>
           i < length ru \<and> py_index ru i = Inr (ru ! i)"
    by (intro exI [of _ sims] exI [of _ "first_greatest sims"]) (simp add: argmax_def py_index_def)
qed

theorem dedup_against_recent_total_witness:
  "length [''https://a.example/1''] = length [twin] \<and>
   (\<exists>res. dedup_against_recent twin ''https://a.example/2'' [twin] [''https://a.example/1''] (9 / 10) = Inr res) \<and>
   (\<exists>sims. batch_similarities twin [twin] = Inr sims \<and> argmax sims = Inr 0)"
proof -
  have len: "length [''https://a.example/1''] = length [twin]" by simp
  from dedup_against_recent_total [OF len, of twin "''https://a.example/2''" "9 / 10"] twin_facts(6)
  obtain sims i where r: "\<exists>res. dedup_against_recent twin ''https://a.example/2'' [twin] [''https://a.example/1''] (9 / 10) = Inr res"
    and s: "batch_similarities twin [twin] = Inr sims" "argmax sims = Inr i" "i < length [''https://a.example/1'']"
    by auto
  from s(3) have "i = 0" by simp
  with len r s show ?thesis by auto
qed

lemma doc_freq_positive: "0 < doc_freq texts r t \<Longrightarrow> t \<in> corpus_terms texts r"
proof -
  assume "0 < doc_freq texts r t"
  then have "filter (\<lambda>d. t \<in> set (terms_of r d)) texts \<noteq> []"
    by (simp add: doc_freq_def)
  then obtain d where "d \<in> set texts" "t \<in> set (terms_of r d)"
    by (auto simp: filter_empty_conv)
  then show ?thesis by (auto simp: corpus_terms_def)
qed

lemma candidate_terms_unknown:
  assumes "set (terms_of (1, 2) cand) \<inter> corpus_terms rt (1, 2) = {}"
    and "t \<in> set (terms_of (1, 2) cand)"
  shows "map_of (vocab (batch_model cand rt)) t = None"
proof (rule ccontr)
  assume "map_of (vocab (batch_model cand rt)) t \<noteq> None"
  then obtain col where "map_of (vocab (batch_model cand rt)) t = Some col" by auto
  then have "(t, col) \<in> set (vocab (batch_model cand rt))" by (rule map_of_SomeD)
  then have "t \<in> fst ` set (vocab (batch_model cand rt))" by force
  with fit_vocab_keys [of "cand # rt" 8000 "(1, 2)" 2]
  have "2 \<le> int (doc_freq (cand # rt) (1, 2) t)" by (auto simp: batch_model_def)
  moreover have "doc_freq (cand # rt) (1, 2) t = Suc (doc_freq rt (1, 2) t)"
    using assms(2) by (simp add: doc_freq_def)
  ultimately have "0 < doc_freq rt (1, 2) t" by simp
  then have "t \<in> corpus_terms rt (1, 2)" by (rule doc_freq_positive)
  with assms show False by auto
qed

lemma zeros_times: "\<forall>x \<in> set (map2 (*) (replicate n (0::real)) ws). x = 0"
  by (auto simp: set_zip)

lemma candidate_row_zero:
  assumes "set (terms_of (1, 2) cand) \<inter> corpus_terms rt (1, 2) = {}"
    and "tfidf_weights (cand # rt) (batch_model cand rt) (1, 2) = Inr W"
  shows "\<forall>x \<in> set (W ! 0). x = 0"
proof -
  let ?M = "batch_model cand rt"
  from assms(2) obtain X ws where X: "all_rows (count_row ?M (1, 2)) (cand # rt) = Inr X"
    and W: "W = map (\<lambda>row. map2 (*) row ws) X"
    by (auto simp: tfidf_weights_def split: sum.splits)
  have "\<forall>(t, c) \<in> set (counter_update [] (terms_of (1, 2) cand)). map_of (vocab ?M) t = None"
  proof (clarify)
    fix t c assume "(t, c) \<in> set (counter_update [] (terms_of (1, 2) cand))"
    then have "t \<in> fst ` set (counter_update [] (terms_of (1, 2) cand))" by force
    then have "t \<in> set (terms_of (1, 2) cand)" by (simp add: keys_counter_update)
    with assms(1) show "map_of (vocab ?M) t = None" by (rule candidate_terms_unknown)
  qed
  then have "count_row ?M (1, 2) cand = Inr (replicate (length (vocab ?M)) 0)"
    unfolding count_row_def by (rule fill_row_unknown)
  moreover from all_rows_nth [OF X, of 0] have "count_row ?M (1, 2) cand = Inr (X ! 0)" by simp
  ultimately have x0: "X ! 0 = replicate (length (vocab ?M)) 0" by simp
  have "length X = Suc (length rt)" using all_rows_length [OF X] by simp
  then have "W ! 0 = map2 (*) (X ! 0) ws" unfolding W by simp
  then show ?thesis using zeros_times by (simp add: x0)
qed

lemma twin_metals:
  "set (terms_of (1, 2) twin) \<inter> corpus_terms [metals] (1, 2) = {}"
  "ranked_items [twin, metals] (1, 2) 2 = []"
  "metals \<noteq> []"
  by code_simp+

text \<open>
  Claim C9, as amended. For every candidate text and every list of recent texts such that
  no n-gram of the candidate occurs in any recent text, and for every threshold greater
  than zero, \<^verbatim>\<open>dedup_against_recent\<close> reports "not a duplicate", with similarity 0.
\<close>

theorem disjoint_vocabulary_not_duplicate:
  "set (terms_of (1, 2) cand) \<inter> corpus_terms rt (1, 2) = {} \<Longrightarrow> 0 < th \<Longrightarrow>
     dedup_against_recent cand u rt ru th =
       Inr \<lparr>is_duplicate = False, duplicate_of_url = None, best_similarity = 0\<rparr>"
proof (cases "cand = [] \<or> rt = []")
  case True
  then show ?thesis by (auto simp: dedup_against_recent_def dedup_against_recent_with_def not_duplicate_def)
next
  case False
  assume dis: "set (terms_of (1, 2) cand) \<inter> corpus_terms rt (1, 2) = {}" and th: "0 < th"
  obtain sims W where b: "batch_similarities cand rt = Inr sims" "length sims = length rt"
    "tfidf_weights (cand # rt) (batch_model cand rt) (1, 2) = Inr W"
    "\<forall>j < length rt. sims ! j = cosine (W ! Suc j) (W ! 0)"
    using batch_similarities_ok [of cand rt] by blast
  have "l2 (W ! 0) = 0"
    using candidate_row_zero [OF dis b(3)] by (simp add: l2_zero_iff)
  then have z: "\<forall>j < length rt. sims ! j = 0" using b(4) by (simp add: cosine_unfold)
  have "sims \<noteq> []" using b(2) False by auto
  from first_greatest_props [OF this] have "first_greatest sims < length rt" using b(2) by simp
  with z have "sims ! first_greatest sims = 0" by simp
  with th show ?thesis
    using dedup_unfold [of cand rt sims u ru th, OF _ _ b(1) b(2)] False
    by (simp add: not_duplicate_def)
qed

theorem disjoint_vocabulary_not_duplicate_witness:
  "set (terms_of (1, 2) twin) \<inter> corpus_terms [metals] (1, 2) = {} \<and> (0::real) < 1 / 2 \<and>
   dedup_against_recent twin ''https://a.example/2'' [metals] [''https://a.example/1''] (1 / 2) =
     Inr \<lparr>is_duplicate = False, duplicate_of_url = None, best_similarity = 0\<rparr>"
  using disjoint_vocabulary_not_duplicate [OF twin_metals(1), of "1 / 2" "''https://a.example/2''"
      "[''https://a.example/1'']"] twin_metals(1)
  by simp

text \<open>
  Claim C9 as it is worded, for every threshold, fails at the threshold 0: the best
  similarity of texts with disjoint vocabularies is 0, the comparison with the threshold is
  inclusive, and the candidate is reported as a duplicate of the first recent URL.
\<close>

theorem disjoint_vocabulary_threshold_zero:
  "set (terms_of (1, 2) twin) \<inter> corpus_terms [metals] (1, 2) = {} \<and>
   dedup_against_recent twin ''https://a.example/2'' [metals] [''https://a.example/1''] 0 =
     Inr \<lparr>is_duplicate = True, duplicate_of_url = Some ''https://a.example/1'', best_similarity = 0\<rparr>"
proof -
  have m: "batch_model twin [metals] = \<lparr>vocab = [], idf = []\<rparr>"
    by (simp add: batch_model_def fit_tfidf_def twin_metals py_prefix_def py_bound_def)
  have "batch_similarities twin [metals] = Inr [0]"
    by (simp add: batch_similarities_def transform_tfidf_def tfidf_weights_def m count_row_def
        broadcast_idf_def similarities_def l2_normalize_def dot_def
        fill_row_unknown)
  then have "dedup_against_recent twin ''https://a.example/2'' [metals] [''https://a.example/1''] 0 =
     Inr \<lparr>is_duplicate = True, duplicate_of_url = Some ''https://a.example/1'', best_similarity = 0\<rparr>"
    using twin_facts(6) twin_metals(3)
    by (simp add: dedup_against_recent_def dedup_against_recent_with_def argmax_def py_index_def)
  with twin_metals(1) show ?thesis by simp
qed

section \<open>Verification of the link discovery example\<close>











end
